theory Spec2Isabelle
  imports Complex_Main
begin

section \<open>Synchronized batch normalisation: the module constructor\<close>

text \<open>
  \<^verbatim>\<open>_SyncBatchNorm.__init__(self, num_features, eps=1e-5, momentum=0.1, **kwargs)\<close>
  calls the constructor of its base class and then creates a lock and the shared tensor
  for \<^verbatim>\<open>torch.cuda.device_count()\<close> devices. The base class is PyTorch's
  \<^verbatim>\<open>_BatchNorm\<close>; its constructor is a parameter \<open>base\<close> of the model, and
  \<open>BatchNorm_init\<close> is the instance that stores its arguments, as PyTorch does.
  The two float literals \<^verbatim>\<open>1e-5\<close> and \<^verbatim>\<open>0.1\<close> are the numbers they
  denote; no arithmetic is done on them here.
\<close>

record 'k BatchNorm =
  num_features :: int
  eps :: real
  momentum :: real
  kwargs :: 'k

definition BatchNorm_init :: "int \<Rightarrow> real \<Rightarrow> real \<Rightarrow> 'k \<Rightarrow> 'k BatchNorm" where
  "BatchNorm_init nf e m kw = \<lparr>num_features = nf, eps = e, momentum = m, kwargs = kw\<rparr>"

record 'b SyncBatchNorm =
  base_module :: 'b
  sharedT_nGPUs :: int

definition SyncBatchNorm_init ::
  "(int \<Rightarrow> real \<Rightarrow> real \<Rightarrow> 'k \<Rightarrow> 'b) \<Rightarrow> int \<Rightarrow> int \<Rightarrow> real \<Rightarrow> real \<Rightarrow> 'k \<Rightarrow> 'b SyncBatchNorm" where
  "SyncBatchNorm_init base device_count nf e m kw =
     \<lparr>base_module = base nf (1 / 100000) (1 / 10) kw, sharedT_nGPUs = device_count\<rparr>"


section \<open>The shared tensor\<close>

datatype error = TypeError | AssertionError | IndexError | ReducerError

record 'v SharedTensor =
  nGPUs :: int
  list :: "'v list"
  push_tasks :: int
  reduce_tasks :: int

definition clear :: "'v SharedTensor \<Rightarrow> 'v SharedTensor" where
  "clear st = st\<lparr>list := [], push_tasks := nGPUs st, reduce_tasks := nGPUs st\<rparr>"

definition SharedTensor_init :: "int \<Rightarrow> 'v SharedTensor" where
  "SharedTensor_init n = clear \<lparr>nGPUs = n, list = [], push_tasks = 0, reduce_tasks = 0\<rparr>"

text \<open>
  \<^verbatim>\<open>list(*inputs)\<close>: no argument gives the empty list, one iterable gives the list of its
  elements, two or more arguments raise \<^verbatim>\<open>TypeError\<close>.
\<close>

fun list_of_args :: "'v list list \<Rightarrow> error + 'v list" where
  "list_of_args [] = Inr []"
| "list_of_args [xs] = Inr xs"
| "list_of_args (xs # ys # zs) = Inl TypeError"

text \<open>\<^verbatim>\<open>xs[i]\<close> of Python: a negative index counts from the end, an index out of range raises.\<close>

definition getitem :: "'v list \<Rightarrow> int \<Rightarrow> error + 'v" where
  "getitem xs i =
     (if 0 \<le> i \<and> i < int (length xs) then Inr (xs ! nat i)
      else if i < 0 \<and> 0 \<le> int (length xs) + i then Inr (xs ! nat (int (length xs) + i))
      else Inl IndexError)"

subsection \<open>The sections of \<^verbatim>\<open>__call__\<close> that run under the lock\<close>

text \<open>
  Lines 140 to 145, the push: the result is the index \<^verbatim>\<open>idx\<close> or the error raised, and
  the shared tensor as the section leaves it (the reset of line 142 is done before
  \<^verbatim>\<open>list(*inputs)\<close> can raise).
\<close>

definition push :: "'v list list \<Rightarrow> 'v SharedTensor \<Rightarrow> (error + int) \<times> 'v SharedTensor" where
  "push inputs st =
     (let st1 = (if push_tasks st = 0 then clear st else st) in
      case list_of_args inputs of
        Inl e \<Rightarrow> (Inl e, st1)
      | Inr xs \<Rightarrow>
          (let st2 = st1\<lparr>list := list st1 @ xs\<rparr>;
               idx = nGPUs st2 - push_tasks st2
           in (Inr idx, st2\<lparr>push_tasks := push_tasks st2 - 1\<rparr>)))"

text \<open>
  Lines 152 to 158, the pull. \<^verbatim>\<open>allreduce\<close> is imported from another module; it is a
  parameter here: a function of the arity and the values that returns the new values, or
  \<open>None\<close> when it raises. The second component of the result lists the calls of
  \<^verbatim>\<open>allreduce\<close> that the section made, each with its arity argument and its values.
\<close>

datatype 'v pulled = Reduced "'v SharedTensor" | Skipped "'v SharedTensor" | Failed error

definition pull ::
  "(nat \<Rightarrow> 'v list \<Rightarrow> 'v list option) \<Rightarrow> 'v SharedTensor \<Rightarrow> 'v pulled \<times> (nat \<times> 'v list) list" where
  "pull allreduce st =
     (if reduce_tasks st = nGPUs st then
        if int (length (list st)) \<noteq> 2 * nGPUs st then (Failed AssertionError, [])
        else (case allreduce 2 (list st) of
                None \<Rightarrow> (Failed ReducerError, [(2, list st)])
              | Some ys \<Rightarrow>
                  (Reduced (st\<lparr>list := ys, reduce_tasks := reduce_tasks st - 1\<rparr>), [(2, list st)]))
      else (Skipped (st\<lparr>reduce_tasks := reduce_tasks st - 1\<rparr>), []))"

subsection \<open>Threads and interleavings\<close>

text \<open>
  A thread is at one of the points of \<^verbatim>\<open>__call__\<close> where the lock is free: outside a call
  (\<open>Idle\<close>, or \<open>Returned\<close> and \<open>Raised\<close> with the outcome of its last call), before the
  block of line 146 (\<open>Push_enter\<close>), inside the \<^verbatim>\<open>wait()\<close> of line 150 (\<open>Push_sleep\<close>),
  notified and about to test the loop condition of line 149 again (\<open>Push_woken\<close>),
  before the pull (\<open>Pull\<close>), the same three points of lines 159 to 163, and before each
  of the two reads of line 165, which are not under the lock. Every point after the
  push carries the thread's \<^verbatim>\<open>idx\<close>. \<open>todo\<close> holds the arguments of the calls the thread
  has still to make.
\<close>

datatype 'v pc =
    Idle
  | Push_enter int | Push_sleep int | Push_woken int
  | Pull int
  | Reduce_enter int | Reduce_sleep int | Reduce_woken int
  | Read int | Read2 int 'v
  | Returned 'v 'v
  | Raised error

record 'v thread =
  pc :: "'v pc"
  todo :: "'v list list list"

text \<open>
  The system: the shared tensor, the threads, and three history variables that no
  transition reads: \<open>arrived\<close>, the threads that pushed since the last reset in the order
  of their pushes, \<open>issued\<close>, the \<^verbatim>\<open>idx\<close> each of these pushes computed, and
  \<open>invocations\<close>, the calls of \<^verbatim>\<open>allreduce\<close> with the calling thread, the arity
  argument and the values.
\<close>

record 'v system =
  sharedT :: "'v SharedTensor"
  threads :: "'v thread list"
  arrived :: "nat list"
  issued :: "int list"
  invocations :: "(nat \<times> nat \<times> 'v list) list"

fun wake :: "'v pc \<Rightarrow> 'v pc" where
  "wake (Push_sleep i) = Push_woken i"
| "wake (Reduce_sleep i) = Reduce_woken i"
| "wake p = p"

definition notify_all :: "'v thread list \<Rightarrow> 'v thread list" where
  "notify_all ths = map (\<lambda>th. th\<lparr>pc := wake (pc th)\<rparr>) ths"

definition set_pc :: "nat \<Rightarrow> 'v pc \<Rightarrow> 'v system \<Rightarrow> 'v system" where
  "set_pc t p s = s\<lparr>threads := (threads s)[t := (threads s ! t)\<lparr>pc := p\<rparr>]\<rparr>"

definition begin_call :: "nat \<Rightarrow> 'v system \<Rightarrow> 'v system" where
  "begin_call t s =
     (case todo (threads s ! t) of
        [] \<Rightarrow> s
      | inputs # rest \<Rightarrow>
          (case push inputs (sharedT s) of
             (Inl e, st') \<Rightarrow>
               s\<lparr>sharedT := st',
                 threads := (threads s)[t := \<lparr>pc = Raised e, todo = rest\<rparr>],
                 arrived := (if push_tasks (sharedT s) = 0 then [] else arrived s),
                 issued := (if push_tasks (sharedT s) = 0 then [] else issued s)\<rparr>
           | (Inr idx, st') \<Rightarrow>
               s\<lparr>sharedT := st',
                 threads := (threads s)[t := \<lparr>pc = Push_enter idx, todo = rest\<rparr>],
                 arrived := (if push_tasks (sharedT s) = 0 then [] else arrived s) @ [t],
                 issued := (if push_tasks (sharedT s) = 0 then [] else issued s) @ [idx]\<rparr>))"

text \<open>
  One step of thread \<open>t\<close>: the section of \<^verbatim>\<open>__call__\<close> it is about to run, taken
  atomically (each runs under the lock, but for the two reads of line 165, which are
  one step each). A sleeping thread and a thread with no call left do not move.
\<close>

definition step :: "(nat \<Rightarrow> 'v list \<Rightarrow> 'v list option) \<Rightarrow> nat \<Rightarrow> 'v system \<Rightarrow> 'v system" where
  "step allreduce t s =
     (if length (threads s) \<le> t then s
      else case pc (threads s ! t) of
        Idle \<Rightarrow> begin_call t s
      | Returned a b \<Rightarrow> begin_call t s
      | Raised e \<Rightarrow> begin_call t s
      | Push_enter idx \<Rightarrow>
          if push_tasks (sharedT s) = 0
          then set_pc t (Pull idx) (s\<lparr>threads := notify_all (threads s)\<rparr>)
          else set_pc t (Push_sleep idx) s
      | Push_sleep idx \<Rightarrow> s
      | Push_woken idx \<Rightarrow>
          if push_tasks (sharedT s) = 0 then set_pc t (Pull idx) s
          else set_pc t (Push_sleep idx) s
      | Pull idx \<Rightarrow>
          (case pull allreduce (sharedT s) of
             (Failed e, calls) \<Rightarrow>
               set_pc t (Raised e) (s\<lparr>invocations := invocations s @ map (Pair t) calls\<rparr>)
           | (Reduced st', calls) \<Rightarrow>
               set_pc t (Reduce_enter idx)
                 (s\<lparr>sharedT := st', invocations := invocations s @ map (Pair t) calls\<rparr>)
           | (Skipped st', calls) \<Rightarrow>
               set_pc t (Reduce_enter idx)
                 (s\<lparr>sharedT := st', invocations := invocations s @ map (Pair t) calls\<rparr>))
      | Reduce_enter idx \<Rightarrow>
          if reduce_tasks (sharedT s) = 0
          then set_pc t (Read idx) (s\<lparr>threads := notify_all (threads s)\<rparr>)
          else set_pc t (Reduce_sleep idx) s
      | Reduce_sleep idx \<Rightarrow> s
      | Reduce_woken idx \<Rightarrow>
          if reduce_tasks (sharedT s) = 0 then set_pc t (Read idx) s
          else set_pc t (Reduce_sleep idx) s
      | Read idx \<Rightarrow>
          (case getitem (list (sharedT s)) (2 * idx) of
             Inl e \<Rightarrow> set_pc t (Raised e) s
           | Inr a \<Rightarrow> set_pc t (Read2 idx a) s)
      | Read2 idx a \<Rightarrow>
          (case getitem (list (sharedT s)) (2 * idx + 1) of
             Inl e \<Rightarrow> set_pc t (Raised e) s
           | Inr b \<Rightarrow> set_pc t (Returned a b) s))"

text \<open>An interleaving is the list of the threads that move, in order.\<close>

definition run :: "(nat \<Rightarrow> 'v list \<Rightarrow> 'v list option) \<Rightarrow> nat list \<Rightarrow> 'v system \<Rightarrow> 'v system" where
  "run allreduce sched s = fold (step allreduce) sched s"

text \<open>
  The system after \<^verbatim>\<open>SharedTensor(n)\<close>, with one thread for each list of calls in
  \<open>calls\<close>, none of them started.
\<close>

definition start :: "int \<Rightarrow> 'v list list list list \<Rightarrow> 'v system" where
  "start n calls =
     \<lparr>sharedT = SharedTensor_init n,
      threads = map (\<lambda>c. \<lparr>pc = Idle, todo = c\<rparr>) calls,
      arrived = [],
      issued = [],
      invocations = []\<rparr>"

text \<open>
  Modelled from the spec: the Reducer of section 6, for values that can be added.
  \<^verbatim>\<open>allreduce\<close> is not among the source files. Given the values in groups of \<open>a\<close>, it
  returns as many groups, each the elementwise sum of all the groups.
\<close>

fun groups :: "nat \<Rightarrow> 'v list \<Rightarrow> 'v list list" where
  "groups a [] = []"
| "groups a (x # xs) = (if a = 0 then [] else take a (x # xs) # groups a (drop a (x # xs)))"

definition add_groups :: "('v::comm_monoid_add) list \<Rightarrow> 'v list \<Rightarrow> 'v list" where
  "add_groups xs ys = map (\<lambda>(x, y). x + y) (zip xs ys)"

definition allreduce_sum :: "nat \<Rightarrow> ('v::comm_monoid_add) list \<Rightarrow> 'v list option" where
  "allreduce_sum a xs =
     (let gs = groups a xs
      in Some (concat (replicate (length gs) (foldr add_groups gs (replicate a 0)))))"

subsection \<open>The invariant of one round\<close>

fun idle :: "'v pc \<Rightarrow> bool" where
  "idle Idle = True"
| "idle (Returned a b) = True"
| "idle (Raised e) = True"
| "idle p = False"

definition contrib :: "'v list list \<Rightarrow> 'v list" where
  "contrib inputs = (case list_of_args inputs of Inr xs \<Rightarrow> xs | Inl e \<Rightarrow> [])"

definition buffer_of :: "(nat \<Rightarrow> 'v list list) \<Rightarrow> nat list \<Rightarrow> 'v list" where
  "buffer_of c A = concat (map (\<lambda>t. contrib (c t)) A)"

definition pulled :: "'v thread \<Rightarrow> bool" where
  "pulled th \<longleftrightarrow>
     (case pc th of
        Reduce_enter i \<Rightarrow> True | Reduce_sleep i \<Rightarrow> True | Reduce_woken i \<Rightarrow> True
      | Read i \<Rightarrow> True | Read2 i a \<Rightarrow> True
      | Returned a b \<Rightarrow> todo th = []
      | Raised e \<Rightarrow> e = IndexError \<and> todo th = []
      | _ \<Rightarrow> False)"

definition npulled :: "'v thread list \<Rightarrow> int" where
  "npulled ths = sum_list (map (\<lambda>th. if pulled th then 1 else 0) ths)"

fun pc_ok :: "(nat \<Rightarrow> 'v list \<Rightarrow> 'v list option) \<Rightarrow> 'v SharedTensor \<Rightarrow> int \<Rightarrow> 'v pc \<Rightarrow> bool" where
  "pc_ok ar st k Idle = False"
| "pc_ok ar st k (Push_enter i) = (i = k)"
| "pc_ok ar st k (Push_sleep i) = (i = k)"
| "pc_ok ar st k (Push_woken i) = (i = k)"
| "pc_ok ar st k (Pull i) = (i = k \<and> push_tasks st = 0)"
| "pc_ok ar st k (Reduce_enter i) = (i = k \<and> push_tasks st = 0 \<and> reduce_tasks st < nGPUs st)"
| "pc_ok ar st k (Reduce_sleep i) = (i = k \<and> push_tasks st = 0 \<and> reduce_tasks st < nGPUs st)"
| "pc_ok ar st k (Reduce_woken i) = (i = k \<and> push_tasks st = 0 \<and> reduce_tasks st < nGPUs st)"
| "pc_ok ar st k (Read i) = (i = k \<and> push_tasks st = 0 \<and> reduce_tasks st = 0)"
| "pc_ok ar st k (Read2 i a) =
     (i = k \<and> push_tasks st = 0 \<and> reduce_tasks st = 0 \<and> getitem (list st) (2 * k) = Inr a)"
| "pc_ok ar st k (Returned a b) =
     (push_tasks st = 0 \<and> reduce_tasks st = 0 \<and> getitem (list st) (2 * k) = Inr a
      \<and> getitem (list st) (2 * k + 1) = Inr b)"
| "pc_ok ar st k (Raised e) =
     (case e of
        TypeError \<Rightarrow> False
      | AssertionError \<Rightarrow>
          push_tasks st = 0 \<and> reduce_tasks st = nGPUs st \<and> int (length (list st)) \<noteq> 2 * nGPUs st
      | ReducerError \<Rightarrow>
          push_tasks st = 0 \<and> reduce_tasks st = nGPUs st \<and> int (length (list st)) = 2 * nGPUs st
          \<and> ar 2 (list st) = None
      | IndexError \<Rightarrow>
          push_tasks st = 0 \<and> reduce_tasks st = 0
          \<and> (getitem (list st) (2 * k) = Inl IndexError \<or> getitem (list st) (2 * k + 1) = Inl IndexError))"

definition thread_ok ::
  "(nat \<Rightarrow> 'v list \<Rightarrow> 'v list option) \<Rightarrow> (nat \<Rightarrow> 'v list list) \<Rightarrow> 'v SharedTensor \<Rightarrow> nat list
     \<Rightarrow> nat \<Rightarrow> 'v thread \<Rightarrow> bool" where
  "thread_ok ar c st A u th \<longleftrightarrow>
     (if u \<in> set A
      then todo th = [] \<and> list_of_args (c u) \<noteq> Inl TypeError
           \<and> (\<forall>k<length A. A ! k = u \<longrightarrow> pc_ok ar st (int k) (pc th))
      else (idle (pc th) \<and> todo th = [c u])
           \<or> (pc th = Raised TypeError \<and> todo th = [] \<and> list_of_args (c u) = Inl TypeError))"

definition started ::
  "(nat \<Rightarrow> 'v list \<Rightarrow> 'v list option) \<Rightarrow> (nat \<Rightarrow> 'v list list) \<Rightarrow> (nat \<times> nat \<times> 'v list) list
     \<Rightarrow> 'v system \<Rightarrow> bool" where
  "started ar c inv0 s \<longleftrightarrow>
     int (length (threads s)) = nGPUs (sharedT s)
     \<and> distinct (arrived s) \<and> (\<forall>u\<in>set (arrived s). u < length (threads s))
     \<and> push_tasks (sharedT s) = nGPUs (sharedT s) - int (length (arrived s))
     \<and> reduce_tasks (sharedT s) = nGPUs (sharedT s) - npulled (threads s)
     \<and> (\<forall>u<length (threads s). thread_ok ar c (sharedT s) (arrived s) u (threads s ! u))
     \<and> (reduce_tasks (sharedT s) = nGPUs (sharedT s) \<longrightarrow>
          list (sharedT s) = buffer_of c (arrived s)
          \<and> (invocations s = inv0
               \<or> push_tasks (sharedT s) = 0
                 \<and> int (length (buffer_of c (arrived s))) = 2 * nGPUs (sharedT s)
                 \<and> ar 2 (buffer_of c (arrived s)) = None))
     \<and> (reduce_tasks (sharedT s) \<noteq> nGPUs (sharedT s) \<longrightarrow>
          push_tasks (sharedT s) = 0
          \<and> ar 2 (buffer_of c (arrived s)) = Some (list (sharedT s))
          \<and> int (length (buffer_of c (arrived s))) = 2 * nGPUs (sharedT s)
          \<and> (\<exists>t<length (threads s). invocations s = inv0 @ [(t, 2, buffer_of c (arrived s))]))"

definition calls_of :: "'v system \<Rightarrow> nat \<Rightarrow> 'v list list" where
  "calls_of s t = hd (todo (threads s ! t))"

definition quiescent :: "'v system \<Rightarrow> bool" where
  "quiescent s \<longleftrightarrow>
     int (length (threads s)) = nGPUs (sharedT s)
     \<and> (\<forall>th\<in>set (threads s). idle (pc th) \<and> length (todo th) = 1)
     \<and> (push_tasks (sharedT s) = 0
        \<or> push_tasks (sharedT s) = nGPUs (sharedT s) \<and> reduce_tasks (sharedT s) = nGPUs (sharedT s)
          \<and> list (sharedT s) = [] \<and> arrived s = [] \<and> issued s = [])"

definition drained ::
  "(nat \<Rightarrow> 'v list list) \<Rightarrow> (nat \<times> nat \<times> 'v list) list \<Rightarrow> 'v system \<Rightarrow> bool" where
  "drained c inv0 s \<longleftrightarrow>
     int (length (threads s)) = nGPUs (sharedT s) \<and> push_tasks (sharedT s) = 0
     \<and> invocations s = inv0
     \<and> (\<forall>u<length (threads s). idle (pc (threads s ! u)) \<and> todo (threads s ! u) = [c u])"

definition round_inv ::
  "(nat \<Rightarrow> 'v list \<Rightarrow> 'v list option) \<Rightarrow> (nat \<Rightarrow> 'v list list) \<Rightarrow> (nat \<times> nat \<times> 'v list) list
     \<Rightarrow> 'v system \<Rightarrow> bool" where
  "round_inv ar c inv0 s \<longleftrightarrow> started ar c inv0 s \<or> drained c inv0 s"

subsection \<open>A round of two workers\<close>

text \<open>
  The scenario of section 8 of the specification: worker 0 submits \<open>[10, 4]\<close>, worker 1
  submits \<open>[20, 16]\<close>, and the threads move in turn.
\<close>

definition ex_start :: "int system" where
  "ex_start = start 2 [[[[10, 4]]], [[[20, 16]]]]"

definition ex_sched :: "nat list" where
  "ex_sched = [0, 1, 0, 1, 0, 1, 0, 1, 0, 1, 0, 1]"

fun token :: "'v pc \<Rightarrow> int option" where
  "token (Push_enter i) = Some i"
| "token (Push_sleep i) = Some i"
| "token (Push_woken i) = Some i"
| "token (Pull i) = Some i"
| "token (Reduce_enter i) = Some i"
| "token (Reduce_sleep i) = Some i"
| "token (Reduce_woken i) = Some i"
| "token (Read i) = Some i"
| "token (Read2 i a) = Some i"
| "token p = None"

definition tokens_inv ::
  "(nat \<Rightarrow> 'v list list) \<Rightarrow> (nat \<times> nat \<times> 'v list) list \<Rightarrow> 'v system \<Rightarrow> bool" where
  "tokens_inv c inv0 s \<longleftrightarrow>
     drained c inv0 s \<or> issued s = map int [0..<length (arrived s)]"

definition buffer_inv :: "nat \<Rightarrow> 'v system \<Rightarrow> bool" where
  "buffer_inv a s \<longleftrightarrow>
     int (length (list (sharedT s))) = int a * (nGPUs (sharedT s) - push_tasks (sharedT s))"

definition arity_ok :: "nat \<Rightarrow> 'v system \<Rightarrow> bool" where
  "arity_ok a s \<longleftrightarrow>
     (\<forall>th\<in>set (threads s). \<forall>inputs\<in>set (todo th). \<forall>xs.
        list_of_args inputs = Inr xs \<longrightarrow> length xs = a)"

definition keeps_length :: "int \<Rightarrow> (nat \<Rightarrow> 'v list \<Rightarrow> 'v list option) \<Rightarrow> bool" where
  "keeps_length n ar \<longleftrightarrow>
     (\<forall>xs ys. int (length xs) = 2 * n \<longrightarrow> ar 2 xs = Some ys \<longrightarrow> length ys = length xs)"

definition wellformed_round :: "'v system \<Rightarrow> bool" where
  "wellformed_round s0 \<longleftrightarrow>
     quiescent s0 \<and> (\<forall>t<length (threads s0). \<exists>x y. calls_of s0 t = [[x, y]])"

definition ex3_start :: "int system" where
  "ex3_start = start 3 [[[[5]]], [[[7]]], [[[9]]]]"

definition total_contributed :: "'v system \<Rightarrow> nat" where
  "total_contributed s0 =
     sum_list (map (\<lambda>t. length (contrib (calls_of s0 t))) [0..<length (threads s0)])"

fun stage :: "'v pc \<Rightarrow> nat" where
  "stage Idle = 0"
| "stage (Push_enter i) = 1"
| "stage (Push_sleep i) = 2"
| "stage (Push_woken i) = 3"
| "stage (Pull i) = 4"
| "stage (Reduce_enter i) = 5"
| "stage (Reduce_sleep i) = 6"
| "stage (Reduce_woken i) = 7"
| "stage (Read i) = 8"
| "stage (Read2 i a) = 9"
| "stage (Returned a b) = 10"
| "stage (Raised e) = 11"

definition some_at :: "nat \<Rightarrow> 'v thread list \<Rightarrow> bool" where
  "some_at k ths \<longleftrightarrow> (\<exists>u<length ths. stage (pc (ths ! u)) = k)"

definition wake_inv :: "'v system \<Rightarrow> bool" where
  "wake_inv s \<longleftrightarrow>
     (some_at 2 (threads s) \<longrightarrow> push_tasks (sharedT s) \<noteq> 0 \<or> some_at 1 (threads s))
     \<and> (some_at 6 (threads s) \<longrightarrow> reduce_tasks (sharedT s) \<noteq> 0 \<or> some_at 5 (threads s))"

fun pc_weight :: "nat \<Rightarrow> 'v pc \<Rightarrow> nat" where
  "pc_weight n (Push_enter i) = 2 * n + 11"
| "pc_weight n (Push_woken i) = n + 9"
| "pc_weight n (Push_sleep i) = n + 8"
| "pc_weight n (Pull i) = n + 7"
| "pc_weight n (Reduce_enter i) = n + 6"
| "pc_weight n (Reduce_woken i) = 4"
| "pc_weight n (Reduce_sleep i) = 3"
| "pc_weight n (Read i) = 2"
| "pc_weight n (Read2 i a) = 1"
| "pc_weight n p = 0"

definition weight :: "nat \<Rightarrow> 'v thread \<Rightarrow> nat" where
  "weight n th = length (todo th) * (2 * n + 12) + pc_weight n (pc th)"

definition potential :: "'v system \<Rightarrow> nat" where
  "potential s = sum_list (map (weight (length (threads s))) (threads s))"

definition finished :: "'v thread \<Rightarrow> bool" where
  "finished th \<longleftrightarrow> idle (pc th) \<and> todo th = []"

definition active :: "'v thread \<Rightarrow> bool" where
  "active th \<longleftrightarrow> \<not> finished th \<and> stage (pc th) \<noteq> 2 \<and> stage (pc th) \<noteq> 6"

definition no_type_error :: "(nat \<Rightarrow> 'v list list) \<Rightarrow> nat \<Rightarrow> bool" where
  "no_type_error c n \<longleftrightarrow> (\<forall>t<n. list_of_args (c t) \<noteq> Inl TypeError)"

definition sums_groups :: "(nat \<Rightarrow> ('v::comm_monoid_add) list \<Rightarrow> 'v list option) \<Rightarrow> bool" where
  "sums_groups ar \<longleftrightarrow>
     (\<forall>gs. (\<forall>g\<in>set gs. length g = 2) \<longrightarrow>
        (\<exists>ys. ar 2 (concat gs) = Some ys \<and> length ys = length gs * 2
           \<and> (\<forall>k<length gs. \<forall>j<2. ys ! (k * 2 + j) = (\<Sum>g\<leftarrow>gs. g ! j))))"

definition column_sum :: "('v::comm_monoid_add) system \<Rightarrow> nat \<Rightarrow> 'v" where
  "column_sum s0 j = (\<Sum>t\<leftarrow>[0..<length (threads s0)]. contrib (calls_of s0 t) ! j)"

definition resume :: "'v list list list \<Rightarrow> 'v system \<Rightarrow> 'v system" where
  "resume cs s = s\<lparr>threads := map (\<lambda>(th, c). th\<lparr>todo := [c]\<rparr>) (zip (threads s) cs)\<rparr>"

definition reset :: "'v system \<Rightarrow> 'v system" where
  "reset s = s\<lparr>sharedT := SharedTensor_init (nGPUs (sharedT s)), arrived := [], issued := []\<rparr>"

definition ex_round2 :: "int system" where
  "ex_round2 = resume [[[1, 2]], [[3, 4]]] (run allreduce_sum ex_sched ex_start)"



text \<open>
  The next call of a worker that is outside \<^verbatim>\<open>__call__\<close>: worker \<open>t\<close> is handed the
  arguments \<open>inputs\<close> of one more call, which its next step begins.
\<close>

definition submit_again :: "nat \<Rightarrow> 'v list list \<Rightarrow> 'v system \<Rightarrow> 'v system" where
  "submit_again t inputs s = s\<lparr>threads := (threads s)[t := (threads s ! t)\<lparr>todo := [inputs]\<rparr>]\<rparr>"

text \<open>
  Two workers, the first with a second call to make. In \<open>ex_malformed2\<close> the first round
  is malformed: one value from each worker.
\<close>

definition ex_two_calls :: "int system" where
  "ex_two_calls = start 2 [[[[10, 4]], [[1, 2]]], [[[20, 16]]]]"



section \<open>Every step keeps the invariant of the round\<close>

lemma sum_list_update_int:
  "t < length xs \<Longrightarrow> sum_list (xs[t := y]) = sum_list xs - xs ! t + (y::int)"
  by (induction xs arbitrary: t) (auto split: nat.splits)

lemma npulled_update:
  "t < length ths \<Longrightarrow>
   npulled (ths[t := th']) =
     npulled ths - (if pulled (ths ! t) then 1 else 0) + (if pulled th' then 1 else 0)"
  unfolding npulled_def by (simp add: map_update sum_list_update_int)

lemma pulled_wake: "pulled (th\<lparr>pc := wake (pc th)\<rparr>) = pulled th"
  by (cases "pc th") (simp_all add: pulled_def)

lemma npulled_notify: "npulled (notify_all ths) = npulled ths"
  unfolding npulled_def notify_all_def by (simp add: comp_def pulled_wake)

lemma npulled_bounds: "0 \<le> npulled ths \<and> npulled ths \<le> int (length ths)"
  unfolding npulled_def by (induction ths) (auto)

lemma npulled_less:
  "t < length ths \<Longrightarrow> \<not> pulled (ths ! t) \<Longrightarrow> npulled ths < int (length ths)"
proof -
  assume a: "t < length ths" "\<not> pulled (ths ! t)"
  have "npulled (ths[t := ths ! t]) = npulled ths" by simp
  define th' where "th' = (ths ! t)\<lparr>pc := Read 0\<rparr>"
  have p: "pulled th'" by (simp add: th'_def pulled_def)
  have "npulled (ths[t := th']) = npulled ths + 1"
    using a p by (simp add: npulled_update)
  moreover have "npulled (ths[t := th']) \<le> int (length (ths[t := th']))"
    using npulled_bounds by blast
  ultimately show ?thesis by simp
qed

lemma idle_not_pulled: "idle (pc th) \<Longrightarrow> todo th \<noteq> [] \<Longrightarrow> \<not> pulled th"
  by (cases "pc th") (simp_all add: pulled_def)

lemma not_pulled_simps [simp]:
  "\<not> pulled \<lparr>pc = Raised TypeError, todo = x\<rparr>"
  "\<not> pulled \<lparr>pc = Push_enter i, todo = x\<rparr>"
  by (simp_all add: pulled_def)

lemma npulled_zero: "(\<forall>u<length ths. \<not> pulled (ths ! u)) \<Longrightarrow> npulled ths = 0"
  unfolding npulled_def
  by (induction ths) (force)+

lemma length_notify_all [simp]: "length (notify_all ths) = length ths"
  by (simp add: notify_all_def)

lemma nth_notify_all [simp]:
  "u < length ths \<Longrightarrow> notify_all ths ! u = (ths ! u)\<lparr>pc := wake (pc (ths ! u))\<rparr>"
  by (simp add: notify_all_def)

lemma pc_ok_wake: "pc_ok ar st k p \<Longrightarrow> pc_ok ar st k (wake p)"
  by (cases p) simp_all

lemma idle_wake [simp]: "idle p \<Longrightarrow> wake p = p"
  by (cases p) simp_all

lemma thread_ok_wake:
  "thread_ok ar c st A u th \<Longrightarrow> thread_ok ar c st A u (th\<lparr>pc := wake (pc th)\<rparr>)"
  unfolding thread_ok_def by (auto simp: pc_ok_wake)

lemma pc_ok_skip:
  "pc_ok ar st k p \<Longrightarrow> 0 < reduce_tasks st \<Longrightarrow> reduce_tasks st < nGPUs st \<Longrightarrow>
   q < nGPUs st \<Longrightarrow> pc_ok ar (st\<lparr>reduce_tasks := q\<rparr>) k p"
  by (cases p) (auto split: error.splits)

lemma pc_ok_reduce:
  "pc_ok ar st k p \<Longrightarrow> reduce_tasks st = nGPUs st \<Longrightarrow> 0 < nGPUs st \<Longrightarrow>
   int (length (list st)) = 2 * nGPUs st \<Longrightarrow> ar 2 (list st) = Some ys \<Longrightarrow>
   q < nGPUs st \<Longrightarrow> pc_ok ar (st\<lparr>list := ys, reduce_tasks := q\<rparr>) k p"
  by (cases p) (auto split: error.splits)

lemma pc_ok_push:
  "pc_ok ar st k p \<Longrightarrow> push_tasks st \<noteq> 0 \<Longrightarrow>
   pc_ok ar (st\<lparr>list := xs, push_tasks := q\<rparr>) k p"
  by (cases p) (auto split: error.splits)

lemma thread_ok_skip:
  "thread_ok ar c st A u th \<Longrightarrow> 0 < reduce_tasks st \<Longrightarrow> reduce_tasks st < nGPUs st \<Longrightarrow>
   q < nGPUs st \<Longrightarrow> thread_ok ar c (st\<lparr>reduce_tasks := q\<rparr>) A u th"
  unfolding thread_ok_def by (auto simp: pc_ok_skip simp del: pc_ok.simps)

lemma thread_ok_reduce:
  "thread_ok ar c st A u th \<Longrightarrow> reduce_tasks st = nGPUs st \<Longrightarrow> 0 < nGPUs st \<Longrightarrow>
   int (length (list st)) = 2 * nGPUs st \<Longrightarrow> ar 2 (list st) = Some ys \<Longrightarrow>
   q < nGPUs st \<Longrightarrow> thread_ok ar c (st\<lparr>list := ys, reduce_tasks := q\<rparr>) A u th"
  unfolding thread_ok_def by (auto simp: pc_ok_reduce simp del: pc_ok.simps)

lemma thread_ok_push:
  assumes "thread_ok ar c st A u th" "push_tasks st \<noteq> 0" "u \<noteq> t" "t \<notin> set A"
  shows "thread_ok ar c (st\<lparr>list := xs, push_tasks := q\<rparr>) (A @ [t]) u th"
  using assms unfolding thread_ok_def
  by (auto simp: nth_append pc_ok_push simp del: pc_ok.simps split: if_splits)

lemma all_arrived:
  assumes "distinct A" "\<forall>u\<in>set A. u < n" "length A = n" "t < n"
  shows "t \<in> set A"
proof -
  have "set A \<subseteq> {..<n}" using assms(2) by auto
  moreover have "card (set A) = n" using assms(1,3) by (simp add: distinct_card)
  ultimately have "set A = {..<n}" by (simp add: card_subset_eq)
  then show ?thesis using assms(4) by simp
qed

lemma started_threads:
  assumes "started ar c inv0 s" "length ths = length (threads s)"
    "npulled ths = npulled (threads s)"
    "\<forall>u<length ths. thread_ok ar c (sharedT s) (arrived s) u (ths ! u)"
  shows "started ar c inv0 (s\<lparr>threads := ths\<rparr>)"
  using assms unfolding started_def by auto

lemma thread_ok_move:
  assumes "thread_ok ar c st A t th" "\<not> idle (pc th)"
    "\<And>k. k < length A \<Longrightarrow> A ! k = t \<Longrightarrow> pc_ok ar st (int k) (pc th) \<Longrightarrow> pc_ok ar st (int k) p'"
  shows "thread_ok ar c st A t (th\<lparr>pc := p'\<rparr>)"
  using assms unfolding thread_ok_def by (auto split: if_splits)

lemma started_move:
  assumes s: "started ar c inv0 s" and t: "t < length (threads s)"
    and ni: "\<not> idle (pc (threads s ! t))"
    and pl: "pulled ((threads s ! t)\<lparr>pc := p'\<rparr>) = pulled (threads s ! t)"
    and ok: "\<And>k. pc_ok ar (sharedT s) k (pc (threads s ! t)) \<Longrightarrow> pc_ok ar (sharedT s) k p'"
  shows "started ar c inv0 (set_pc t p' s)"
    and "started ar c inv0 (set_pc t p' (s\<lparr>threads := notify_all (threads s)\<rparr>))"
proof -
  have all: "\<forall>u<length (threads s). thread_ok ar c (sharedT s) (arrived s) u (threads s ! u)"
    using s unfolding started_def by simp
  have tok: "thread_ok ar c (sharedT s) (arrived s) t ((threads s ! t)\<lparr>pc := p'\<rparr>)"
    using all t ni ok by (intro thread_ok_move) auto
  show "started ar c inv0 (set_pc t p' s)"
    unfolding set_pc_def
    using s t pl all tok
    by (intro started_threads) (auto simp: npulled_update nth_list_update)
  show "started ar c inv0 (set_pc t p' (s\<lparr>threads := notify_all (threads s)\<rparr>))"
    unfolding set_pc_def
    using s t pl all tok
    by (simp, intro started_threads)
       (auto simp: npulled_update npulled_notify pulled_wake nth_list_update thread_ok_wake)
qed

lemma list_of_args_error: "list_of_args x = Inl e \<Longrightarrow> e = TypeError"
  by (cases x rule: list_of_args.cases) simp_all

lemma started_thread_ok:
  "started ar c inv0 s \<Longrightarrow> u < length (threads s) \<Longrightarrow>
   thread_ok ar c (sharedT s) (arrived s) u (threads s ! u)"
  unfolding started_def by simp

lemma thread_ok_busy:
  "thread_ok ar c st A t th \<Longrightarrow> \<not> idle (pc th) \<Longrightarrow>
   t \<in> set A \<and> todo th = [] \<and> (\<exists>k<length A. A ! k = t \<and> pc_ok ar st (int k) (pc th))"
  unfolding thread_ok_def by (auto simp: in_set_conv_nth split: if_splits)

lemma started_begin_call:
  assumes s: "started ar c inv0 s" and t: "t < length (threads s)"
    and i: "idle (pc (threads s ! t))"
  shows "started ar c inv0 (begin_call t s)"
proof (cases "todo (threads s ! t)")
  case Nil
  then show ?thesis using s by (simp add: begin_call_def)
next
  case (Cons inputs rest)
  have tok: "thread_ok ar c (sharedT s) (arrived s) t (threads s ! t)"
    using s t by (rule started_thread_ok)
  have notin: "t \<notin> set (arrived s)" and rest: "rest = []" and inp: "inputs = c t"
    using tok Cons unfolding thread_ok_def by (auto split: if_splits)
  have len: "int (length (threads s)) = nGPUs (sharedT s)"
    and dist: "distinct (arrived s)" and bnd: "\<forall>u\<in>set (arrived s). u < length (threads s)"
    and p: "push_tasks (sharedT s) = nGPUs (sharedT s) - int (length (arrived s))"
    using s unfolding started_def by simp_all
  have pnz: "push_tasks (sharedT s) \<noteq> 0"
  proof
    assume "push_tasks (sharedT s) = 0"
    then have "length (arrived s) = length (threads s)" using p len by simp
    then have "t \<in> set (arrived s)" using all_arrived [OF dist bnd _ t] by simp
    then show False using notin by simp
  qed
  have np: "\<not> pulled (threads s ! t)"
    using i Cons by (cases "pc (threads s ! t)") (simp_all add: pulled_def)
  show ?thesis
  proof (cases "list_of_args (c t)")
    case (Inl e)
    then have e: "e = TypeError" by (rule list_of_args_error)
    have eq: "begin_call t s = s\<lparr>threads := (threads s)[t := \<lparr>pc = Raised TypeError, todo = []\<rparr>]\<rparr>"
      using Cons Inl e pnz rest inp by (simp add: begin_call_def push_def)
    show ?thesis unfolding eq
    proof (rule started_threads [OF s])
      show "length ((threads s)[t := \<lparr>pc = Raised TypeError, todo = []\<rparr>]) = length (threads s)"
        by simp
      show "npulled ((threads s)[t := \<lparr>pc = Raised TypeError, todo = []\<rparr>]) = npulled (threads s)"
        using t np by (simp add: npulled_update)
      show "\<forall>u<length ((threads s)[t := \<lparr>pc = Raised TypeError, todo = []\<rparr>]).
              thread_ok ar c (sharedT s) (arrived s) u
                ((threads s)[t := \<lparr>pc = Raised TypeError, todo = []\<rparr>] ! u)"
      proof (intro allI impI)
        fix u assume "u < length ((threads s)[t := \<lparr>pc = Raised TypeError, todo = []\<rparr>])"
        then have u: "u < length (threads s)" by simp
        show "thread_ok ar c (sharedT s) (arrived s) u
                ((threads s)[t := \<lparr>pc = Raised TypeError, todo = []\<rparr>] ! u)"
        proof (cases "u = t")
          case True
          then show ?thesis using t notin Inl e by (simp add: thread_ok_def)
        next
          case False
          then show ?thesis using started_thread_ok [OF s u] by simp
        qed
      qed
    qed
  next
    case (Inr xs)
    let ?st' = "(sharedT s)\<lparr>list := list (sharedT s) @ xs, push_tasks := push_tasks (sharedT s) - 1\<rparr>"
    let ?th' = "\<lparr>pc = Push_enter (nGPUs (sharedT s) - push_tasks (sharedT s)), todo = []\<rparr>"
    have eq: "begin_call t s =
        s\<lparr>sharedT := ?st', threads := (threads s)[t := ?th'], arrived := arrived s @ [t],
          issued := issued s @ [nGPUs (sharedT s) - push_tasks (sharedT s)]\<rparr>"
      using Cons Inr pnz rest inp by (simp add: begin_call_def push_def Let_def)
    have others: "thread_ok ar c ?st' (arrived s @ [t]) u (threads s ! u)"
      if "u < length (threads s)" "u \<noteq> t" for u
      using thread_ok_push [OF started_thread_ok [OF s that(1)] pnz that(2) notin] .
    have self: "thread_ok ar c ?st' (arrived s @ [t]) t ?th'"
      using notin Inr p unfolding thread_ok_def
      by (auto simp: nth_append split: if_splits)
    have buf: "buffer_of c (arrived s @ [t]) = buffer_of c (arrived s) @ xs"
      using Inr by (simp add: buffer_of_def contrib_def)
    have npl: "npulled ((threads s)[t := ?th']) = npulled (threads s)"
      using t np by (simp add: npulled_update)
    show ?thesis unfolding eq started_def
      using s len dist bnd p pnz notin t others self buf npl
      by (auto simp: nth_list_update started_def)
  qed
qed

lemma getitem_error: "getitem xs i = Inl e \<Longrightarrow> e = IndexError"
  by (auto simp: getitem_def split: if_splits)

lemma getitem_cases: "getitem xs i = Inl IndexError \<or> (\<exists>a. getitem xs i = Inr a)"
  by (cases "getitem xs i") (auto dest: getitem_error)

lemma started_busy:
  assumes "started ar c inv0 s" "t < length (threads s)" "\<not> idle (pc (threads s ! t))"
  shows "t \<in> set (arrived s)" "todo (threads s ! t) = []"
    "\<exists>k<length (arrived s). arrived s ! k = t \<and> pc_ok ar (sharedT s) (int k) (pc (threads s ! t))"
  using thread_ok_busy [OF started_thread_ok [OF assms(1,2)] assms(3)] by auto

lemma started_pull:
  assumes s: "started ar c inv0 s" and t: "t < length (threads s)"
    and pc: "pc (threads s ! t) = Pull i"
  shows "started ar c inv0 (step ar t s)"
proof -
  let ?st = "sharedT s"
  have ni: "\<not> idle (pc (threads s ! t))" using pc by simp
  have len: "int (length (threads s)) = nGPUs ?st"
    and r: "reduce_tasks ?st = nGPUs ?st - npulled (threads s)"
    using s unfolding started_def by simp_all
  have p0: "push_tasks ?st = 0"
    using started_busy(3) [OF s t ni] pc by auto
  have npl: "\<not> pulled (threads s ! t)" using pc by (simp add: pulled_def)
  have Npos: "0 < nGPUs ?st" using t len by simp
  have rpos: "0 < reduce_tasks ?st"
    using npulled_less [OF t npl] r len by simp
  have rle: "reduce_tasks ?st \<le> nGPUs ?st"
    using npulled_bounds [of "threads s"] r by simp
  consider
      (assert) "reduce_tasks ?st = nGPUs ?st" "int (length (list ?st)) \<noteq> 2 * nGPUs ?st"
    | (fail) "reduce_tasks ?st = nGPUs ?st" "int (length (list ?st)) = 2 * nGPUs ?st"
        "ar 2 (list ?st) = None"
    | (reduce) ys where "reduce_tasks ?st = nGPUs ?st" "int (length (list ?st)) = 2 * nGPUs ?st"
        "ar 2 (list ?st) = Some ys"
    | (skip) "reduce_tasks ?st \<noteq> nGPUs ?st"
    by (cases "ar 2 (list ?st)") auto
  then show ?thesis
  proof cases
    case assert
    have eq: "step ar t s = set_pc t (Raised AssertionError) s"
      using t pc assert by (simp add: step_def pull_def)
    show ?thesis unfolding eq
      using pc assert p0 by (intro started_move(1) [OF s t ni]) (auto simp: pulled_def)
  next
    case fail
    have eq: "step ar t s =
        set_pc t (Raised ReducerError) (s\<lparr>invocations := invocations s @ [(t, 2, list ?st)]\<rparr>)"
      using t pc fail by (simp add: step_def pull_def)
    have s': "started ar c inv0 (s\<lparr>invocations := invocations s @ [(t, 2, list ?st)]\<rparr>)"
      using s fail p0 unfolding started_def by auto
    show ?thesis unfolding eq
      using pc fail p0 t by (intro started_move(1) [OF s']) (auto simp: pulled_def)
  next
    case reduce
    let ?st' = "?st\<lparr>list := ys, reduce_tasks := reduce_tasks ?st - 1\<rparr>"
    have eq: "step ar t s =
        set_pc t (Reduce_enter i)
          (s\<lparr>sharedT := ?st', invocations := invocations s @ [(t, 2, list ?st)]\<rparr>)"
      using t pc reduce by (simp add: step_def pull_def)
    have others: "thread_ok ar c ?st' (arrived s) u (threads s ! u)"
      if "u < length (threads s)" for u
      by (rule thread_ok_reduce [OF started_thread_ok [OF s that] reduce(1) Npos reduce(2,3)])
         (simp add: reduce(1))
    have self: "thread_ok ar c ?st' (arrived s) t ((threads s ! t)\<lparr>pc := Reduce_enter i\<rparr>)"
      using others [OF t] pc p0 reduce(1)
      by (intro thread_ok_move) auto
    have np': "npulled ((threads s)[t := (threads s ! t)\<lparr>pc := Reduce_enter i\<rparr>])
         = npulled (threads s) + 1"
      using t npl by (simp add: npulled_update pulled_def)
    have inv: "invocations s = inv0" and buf: "list ?st = buffer_of c (arrived s)"
      using s reduce unfolding started_def by auto
    show ?thesis unfolding eq set_pc_def started_def
      using s len r t others self np' inv buf reduce p0
      by (auto simp: nth_list_update started_def)
  next
    case skip
    let ?st' = "?st\<lparr>reduce_tasks := reduce_tasks ?st - 1\<rparr>"
    have rlt: "reduce_tasks ?st < nGPUs ?st" using skip rle by simp
    have eq: "step ar t s = set_pc t (Reduce_enter i) (s\<lparr>sharedT := ?st'\<rparr>)"
      using t pc skip by (simp add: step_def pull_def)
    have others: "thread_ok ar c ?st' (arrived s) u (threads s ! u)"
      if "u < length (threads s)" for u
      by (rule thread_ok_skip [OF started_thread_ok [OF s that] rpos rlt]) (use rlt in simp)
    have self: "thread_ok ar c ?st' (arrived s) t ((threads s ! t)\<lparr>pc := Reduce_enter i\<rparr>)"
      using others [OF t] pc p0 rlt
      by (intro thread_ok_move) auto
    have np': "npulled ((threads s)[t := (threads s ! t)\<lparr>pc := Reduce_enter i\<rparr>])
         = npulled (threads s) + 1"
      using t npl by (simp add: npulled_update pulled_def)
    show ?thesis unfolding eq set_pc_def started_def
      using s len r t others self np' skip rlt p0
      by (auto simp: nth_list_update started_def)
  qed
qed

lemma started_step:
  assumes s: "started ar c inv0 s"
  shows "started ar c inv0 (step ar t s)"
proof (cases "t < length (threads s)")
  case False
  then show ?thesis using s by (simp add: step_def)
next
  case t: True
  show ?thesis
  proof (cases "idle (pc (threads s ! t))")
    case True
    then have "step ar t s = begin_call t s"
      using t by (cases "pc (threads s ! t)") (simp_all add: step_def)
    then show ?thesis using started_begin_call [OF s t True] by simp
  next
    case ni: False
    note busy = started_busy [OF s t ni]
    note mv = started_move [OF s t ni]
    show ?thesis
    proof (cases "pc (threads s ! t)")
      case Idle
      then show ?thesis using ni by simp
    next
      case (Push_enter i)
      then show ?thesis using t by (auto simp: step_def pulled_def intro!: mv)
    next
      case (Push_sleep i)
      then show ?thesis using t s by (simp add: step_def)
    next
      case (Push_woken i)
      then show ?thesis using t by (auto simp: step_def pulled_def intro!: mv)
    next
      case (Pull i)
      then show ?thesis using started_pull [OF s t] by simp
    next
      case (Reduce_enter i)
      then show ?thesis using t by (auto simp: step_def pulled_def intro!: mv)
    next
      case (Reduce_sleep i)
      then show ?thesis using t s by (simp add: step_def)
    next
      case (Reduce_woken i)
      then show ?thesis using t by (auto simp: step_def pulled_def intro!: mv)
    next
      case (Read i)
      then show ?thesis using t busy(2) getitem_cases [of "list (sharedT s)" "2 * i"]
        by (auto simp: step_def pulled_def intro!: mv)
    next
      case (Read2 i a)
      then show ?thesis using t busy(2) getitem_cases [of "list (sharedT s)" "2 * i + 1"]
        by (auto simp: step_def pulled_def intro!: mv)
    next
      case (Returned a b)
      then show ?thesis using ni by simp
    next
      case (Raised e)
      then show ?thesis using ni by simp
    qed
  qed
qed

lemma todo_single: "length xs = 1 \<Longrightarrow> xs = [hd xs]"
  by (cases xs) simp_all

lemma quiescent_round_inv:
  assumes "quiescent s"
  shows "round_inv ar (calls_of s) (invocations s) s"
proof (cases "push_tasks (sharedT s) = 0")
  case True
  have "idle (pc (threads s ! u)) \<and> todo (threads s ! u) = [calls_of s u]"
    if "u < length (threads s)" for u
    using assms that todo_single [of "todo (threads s ! u)"]
    unfolding quiescent_def calls_of_def by auto
  then have "drained (calls_of s) (invocations s) s"
    using assms True unfolding drained_def quiescent_def by simp
  then show ?thesis by (simp add: round_inv_def)
next
  case False
  have th: "idle (pc (threads s ! u)) \<and> todo (threads s ! u) = [calls_of s u]"
    if "u < length (threads s)" for u
    using assms that todo_single [of "todo (threads s ! u)"]
    unfolding quiescent_def calls_of_def by auto
  have "\<not> pulled (threads s ! u)" if "u < length (threads s)" for u
    by (rule idle_not_pulled) (use th [OF that] in auto)
  then have "npulled (threads s) = 0"
    by (intro npulled_zero) auto
  then have "started ar (calls_of s) (invocations s) s"
    using assms False th unfolding started_def quiescent_def
    by (auto simp: thread_ok_def buffer_of_def)
  then show ?thesis by (simp add: round_inv_def)
qed

lemma drained_step:
  assumes d: "drained c inv0 s"
  shows "round_inv ar c inv0 (step ar t s)"
proof (cases "t < length (threads s)")
  case False
  then show ?thesis using d by (simp add: step_def round_inv_def)
next
  case t: True
  let ?st = "sharedT s"
  have len: "int (length (threads s)) = nGPUs ?st" and p0: "push_tasks ?st = 0"
    and inv: "invocations s = inv0"
    and th: "\<And>u. u < length (threads s) \<Longrightarrow>
               idle (pc (threads s ! u)) \<and> todo (threads s ! u) = [c u]"
    using d unfolding drained_def by simp_all
  have npu: "\<not> pulled (threads s ! u)" if "u < length (threads s)" for u
    by (rule idle_not_pulled) (use th [OF that] in auto)
  have eq0: "step ar t s = begin_call t s"
    using t th [OF t] by (cases "pc (threads s ! t)") (simp_all add: step_def)
  show ?thesis
  proof (cases "list_of_args (c t)")
    case (Inl e)
    then have e: "e = TypeError" by (rule list_of_args_error)
    let ?ths = "(threads s)[t := \<lparr>pc = Raised TypeError, todo = []\<rparr>]"
    have eq: "step ar t s = s\<lparr>sharedT := clear ?st, threads := ?ths, arrived := [], issued := []\<rparr>"
      unfolding eq0 using th [OF t] Inl e p0 by (simp add: begin_call_def push_def)
    have np: "npulled ?ths = 0"
      using npu t by (intro npulled_zero) (auto simp: nth_list_update)
    have "started ar c inv0 (step ar t s)"
      unfolding eq started_def using len inv np th Inl e t
      by (auto simp: clear_def buffer_of_def thread_ok_def nth_list_update)
    then show ?thesis by (simp add: round_inv_def)
  next
    case (Inr xs)
    let ?ths = "(threads s)[t := \<lparr>pc = Push_enter 0, todo = []\<rparr>]"
    let ?st' = "?st\<lparr>list := xs, push_tasks := nGPUs ?st - 1, reduce_tasks := nGPUs ?st\<rparr>"
    have eq: "step ar t s = s\<lparr>sharedT := ?st', threads := ?ths, arrived := [t], issued := [0]\<rparr>"
      unfolding eq0 using th [OF t] Inr p0 by (simp add: begin_call_def push_def clear_def)
    have np: "npulled ?ths = 0"
      using npu t by (intro npulled_zero) (auto simp: nth_list_update)
    have "started ar c inv0 (step ar t s)"
      unfolding eq started_def using len inv np th Inr t
      by (auto simp: buffer_of_def contrib_def thread_ok_def nth_list_update)
    then show ?thesis by (simp add: round_inv_def)
  qed
qed

lemma round_inv_step: "round_inv ar c inv0 s \<Longrightarrow> round_inv ar c inv0 (step ar t s)"
  using started_step [of ar c inv0 s t] drained_step [of c inv0 s ar t]
  by (auto simp: round_inv_def)

lemma round_inv_run: "round_inv ar c inv0 s \<Longrightarrow> round_inv ar c inv0 (run ar sched s)"
  unfolding run_def by (induction sched arbitrary: s) (simp_all add: round_inv_step)

lemma quiescent_run:
  "quiescent s0 \<Longrightarrow> round_inv ar (calls_of s0) (invocations s0) (run ar sched s0)"
  by (rule round_inv_run [OF quiescent_round_inv])

subsection \<open>Runs of the example and steps of the pull\<close>

lemma ex_quiescent: "quiescent ex_start"
  by (simp add: ex_start_def start_def quiescent_def SharedTensor_init_def clear_def)

lemma ex_run:
  "run allreduce_sum ex_sched ex_start =
     \<lparr>sharedT = \<lparr>nGPUs = 2, list = [30, 20, 30, 20], push_tasks = 0, reduce_tasks = 0\<rparr>,
      threads = [\<lparr>pc = Returned 30 20, todo = []\<rparr>, \<lparr>pc = Returned 30 20, todo = []\<rparr>],
      arrived = [0, 1], issued = [0, 1], invocations = [(0, 2, [10, 4, 20, 16])]\<rparr>"
  by code_simp

lemma npulled_pos: "t < length ths \<Longrightarrow> pulled (ths ! t) \<Longrightarrow> 1 \<le> npulled ths"
proof -
  assume a: "t < length ths" "pulled (ths ! t)"
  define th' where "th' = (ths ! t)\<lparr>pc := Idle\<rparr>"
  have p: "\<not> pulled th'" by (simp add: th'_def pulled_def)
  have "npulled (ths[t := th']) = npulled ths - 1"
    using a p by (simp add: npulled_update)
  moreover have "0 \<le> npulled (ths[t := th'])"
    using npulled_bounds by blast
  ultimately show ?thesis by simp
qed

lemma begin_call_invocations [simp]: "invocations (begin_call t s) = invocations s"
  by (auto simp: begin_call_def split: list.splits prod.splits sum.splits)

lemma set_pc_simps [simp]:
  "invocations (set_pc t p s) = invocations s"
  "sharedT (set_pc t p s) = sharedT s"
  "arrived (set_pc t p s) = arrived s"
  "issued (set_pc t p s) = issued s"
  "length (threads (set_pc t p s)) = length (threads s)"
  by (simp_all add: set_pc_def)

lemma pc_set_pc [simp]: "t < length (threads s) \<Longrightarrow> pc (threads (set_pc t p s) ! t) = p"
  by (simp add: set_pc_def)

lemma step_invocations:
  assumes "invocations (step ar t s) \<noteq> invocations s"
  shows "t < length (threads s) \<and> (\<exists>i. pc (threads s ! t) = Pull i)
         \<and> reduce_tasks (sharedT s) = nGPUs (sharedT s)"
proof -
  have t: "t < length (threads s)" using assms by (cases "t < length (threads s)") (simp_all add: step_def)
  show ?thesis
  proof (cases "pc (threads s ! t)")
    case (Pull i)
    then show ?thesis using assms t
      by (auto simp: step_def pull_def split: if_splits option.splits)
  qed (use assms t in \<open>auto simp: step_def split: sum.splits if_splits\<close>)
qed


lemma step_pull_first:
  assumes "t < length (threads s)" "pc (threads s ! t) = Pull i"
    "reduce_tasks (sharedT s) = nGPUs (sharedT s)" "pulled (threads (step ar t s) ! t)"
  shows "\<exists>ys. ar 2 (list (sharedT s)) = Some ys
     \<and> int (length (list (sharedT s))) = 2 * nGPUs (sharedT s)
     \<and> step ar t s =
        set_pc t (Reduce_enter i)
          (s\<lparr>sharedT := (sharedT s)\<lparr>list := ys, reduce_tasks := reduce_tasks (sharedT s) - 1\<rparr>,
             invocations := invocations s @ [(t, 2, list (sharedT s))]\<rparr>)"
  using assms
  by (cases "ar 2 (list (sharedT s))") (auto simp: step_def pull_def pulled_def split: if_splits)


lemma ex_run_4:
  "run allreduce_sum [0, 1, 0, 1] ex_start =
     \<lparr>sharedT = \<lparr>nGPUs = 2, list = [10, 4, 20, 16], push_tasks = 0, reduce_tasks = 2\<rparr>,
      threads = [\<lparr>pc = Pull 0, todo = []\<rparr>, \<lparr>pc = Pull 1, todo = []\<rparr>],
      arrived = [0, 1], issued = [0, 1], invocations = []\<rparr>"
  by code_simp


lemma ex_run_6:
  "run allreduce_sum [0, 1, 0, 1, 0, 1] ex_start =
     \<lparr>sharedT = \<lparr>nGPUs = 2, list = [30, 20, 30, 20], push_tasks = 0, reduce_tasks = 0\<rparr>,
      threads = [\<lparr>pc = Reduce_enter 0, todo = []\<rparr>, \<lparr>pc = Reduce_enter 1, todo = []\<rparr>],
      arrived = [0, 1], issued = [0, 1], invocations = [(0, 2, [10, 4, 20, 16])]\<rparr>"
  by code_simp

lemma run_snoc: "run ar (sched @ [t]) s = step ar t (run ar sched s)"
  by (simp add: run_def)

lemma ex_step_5: "step allreduce_sum 0 (run allreduce_sum [0, 1, 0, 1] ex_start)
     = run allreduce_sum [0, 1, 0, 1, 0] ex_start"
  using run_snoc [of allreduce_sum "[0, 1, 0, 1]" 0 ex_start] by simp

lemma ex_step_6: "step allreduce_sum 1 (run allreduce_sum [0, 1, 0, 1, 0] ex_start)
     = run allreduce_sum [0, 1, 0, 1, 0, 1] ex_start"
  using run_snoc [of allreduce_sum "[0, 1, 0, 1, 0]" 1 ex_start] by simp


lemma pc_ok_token: "pc_ok ar st k p \<Longrightarrow> token p = Some i \<Longrightarrow> i = k"
  by (cases p) auto

lemma token_not_idle: "token p = Some i \<Longrightarrow> \<not> idle p"
  by (cases p) auto

lemma concat_block:
  "\<forall>xs\<in>set xss. length xs = a \<Longrightarrow> k < length xss \<Longrightarrow>
   take a (drop (k * a) (concat xss)) = xss ! k"
proof (induction xss arbitrary: k)
  case Nil
  then show ?case by simp
next
  case (Cons xs xss)
  show ?case
  proof (cases k)
    case 0
    then show ?thesis using Cons.prems by simp
  next
    case (Suc j)
    then show ?thesis using Cons.prems Cons.IH [of j] by simp
  qed
qed

lemma buffer_block:
  assumes "\<forall>u\<in>set A. length (contrib (c u)) = a" "k < length A"
  shows "take a (drop (k * a) (buffer_of c A)) = contrib (c (A ! k))"
  unfolding buffer_of_def using concat_block [of "map (\<lambda>t. contrib (c t)) A" a k] assms
  by simp

lemma step_busy_arrived:
  assumes "t < length (threads s)" "\<not> idle (pc (threads s ! t))"
  shows "arrived (step ar t s) = arrived s \<and> issued (step ar t s) = issued s"
  using assms
  by (cases "pc (threads s ! t)")
     (auto simp: step_def split: sum.splits prod.splits pulled.splits if_splits)

lemma step_idle: "t < length (threads s) \<Longrightarrow> idle (pc (threads s ! t)) \<Longrightarrow>
   step ar t s = begin_call t s"
  by (cases "pc (threads s ! t)") (simp_all add: step_def)

lemma begin_call_issued:
  "begin_call t s = s
   \<or> (push_tasks (sharedT s) \<noteq> 0 \<and> arrived (begin_call t s) = arrived s
       \<and> issued (begin_call t s) = issued s)
   \<or> (arrived (begin_call t s) = [] \<and> issued (begin_call t s) = [])
   \<or> (push_tasks (sharedT s) = 0 \<and> arrived (begin_call t s) = [t] \<and> issued (begin_call t s) = [0])
   \<or> (push_tasks (sharedT s) \<noteq> 0 \<and> arrived (begin_call t s) = arrived s @ [t]
       \<and> issued (begin_call t s) = issued s @ [nGPUs (sharedT s) - push_tasks (sharedT s)])"
  by (auto simp: begin_call_def push_def clear_def Let_def split: list.splits sum.splits)

lemma drained_push_tasks: "drained c inv0 s \<Longrightarrow> push_tasks (sharedT s) = 0"
  by (simp add: drained_def)

lemma started_arrived_length:
  "started ar c inv0 s \<Longrightarrow> int (length (arrived s)) = nGPUs (sharedT s) - push_tasks (sharedT s)"
  by (simp add: started_def)

lemma tokens_inv_step:
  assumes r: "round_inv ar c inv0 s" and k: "tokens_inv c inv0 s"
  shows "tokens_inv c inv0 (step ar t s)"
proof (cases "t < length (threads s)")
  case False
  then show ?thesis using k by (simp add: step_def)
next
  case t: True
  show ?thesis
  proof (cases "idle (pc (threads s ! t))")
    case False
    then have "\<not> drained c inv0 s" using t by (auto simp: drained_def)
    then show ?thesis using k step_busy_arrived [OF t False, of ar]
      by (simp add: tokens_inv_def)
  next
    case True
    have eq: "step ar t s = begin_call t s" using t True by (rule step_idle)
    show ?thesis
    proof (cases "drained c inv0 s")
      case d: True
      then show ?thesis
        using begin_call_issued [of t s] drained_push_tasks [OF d] unfolding eq tokens_inv_def
        by auto
    next
      case False
      then have st: "started ar c inv0 s" and iss: "issued s = map int [0..<length (arrived s)]"
        using r k by (auto simp: round_inv_def tokens_inv_def)
      show ?thesis
        using begin_call_issued [of t s] started_arrived_length [OF st] iss
        unfolding eq tokens_inv_def by auto
    qed
  qed
qed

lemma tokens_inv_run:
  "round_inv ar c inv0 s \<Longrightarrow> tokens_inv c inv0 s \<Longrightarrow> tokens_inv c inv0 (run ar sched s)"
  unfolding run_def
  by (induction sched arbitrary: s) (simp_all add: round_inv_step tokens_inv_step)

lemma quiescent_drained:
  assumes "quiescent s" "push_tasks (sharedT s) = 0"
  shows "drained (calls_of s) (invocations s) s"
proof -
  have "idle (pc (threads s ! u)) \<and> todo (threads s ! u) = [calls_of s u]"
    if "u < length (threads s)" for u
    using assms that todo_single [of "todo (threads s ! u)"]
    unfolding quiescent_def calls_of_def by auto
  then show ?thesis
    using assms unfolding drained_def quiescent_def by simp
qed

lemma quiescent_tokens_inv: "quiescent s \<Longrightarrow> tokens_inv (calls_of s) (invocations s) s"
  using quiescent_drained [of s]
  by (auto simp: tokens_inv_def quiescent_def)

lemma begun_started:
  assumes "round_inv ar c inv0 s" "t < length (threads s)" "todo (threads s ! t) = []"
  shows "started ar c inv0 s"
  using assms by (auto simp: round_inv_def drained_def)

lemma push_idx:
  assumes "push inputs st = (Inr idx, st')"
  shows "idx = nGPUs st - (if push_tasks st = 0 then nGPUs st else push_tasks st)
     \<and> push_tasks st' = (if push_tasks st = 0 then nGPUs st else push_tasks st) - 1"
  using assms by (auto simp: push_def clear_def Let_def split: sum.splits if_splits)

lemma ex_run_2:
  "run allreduce_sum [0, 1] ex_start =
     \<lparr>sharedT = \<lparr>nGPUs = 2, list = [10, 4, 20, 16], push_tasks = 0, reduce_tasks = 2\<rparr>,
      threads = [\<lparr>pc = Push_enter 0, todo = []\<rparr>, \<lparr>pc = Push_enter 1, todo = []\<rparr>],
      arrived = [0, 1], issued = [0, 1], invocations = []\<rparr>"
  by code_simp

lemma ex_calls: "calls_of ex_start 0 = [[10, 4]]" "calls_of ex_start 1 = [[20, 16]]"
  by (simp_all add: calls_of_def ex_start_def start_def)

lemma todo_notify_all [simp]: "map todo (notify_all ths) = map todo ths"
  by (simp add: notify_all_def comp_def)

lemma arity_ok_alt:
  "arity_ok a s \<longleftrightarrow>
     (\<forall>td\<in>set (map todo (threads s)). \<forall>inputs\<in>set td. \<forall>xs.
        list_of_args inputs = Inr xs \<longrightarrow> length xs = a)"
  by (auto simp: arity_ok_def)

lemma map_todo_set_pc [simp]:
  "map todo (threads (set_pc t p s)) = map todo (threads s)"
  by (cases "t < length (threads s)") (simp_all add: set_pc_def map_update list_update_same_conv list_update_beyond)

lemma arity_ok_set_pc [simp]: "arity_ok a (set_pc t p s) = arity_ok a s"
  by (simp add: arity_ok_alt)

lemma arity_ok_fields [simp]:
  "arity_ok a (s\<lparr>sharedT := st\<rparr>) = arity_ok a s"
  "arity_ok a (s\<lparr>invocations := i\<rparr>) = arity_ok a s"
  "arity_ok a (s\<lparr>threads := notify_all (threads s)\<rparr>) = arity_ok a s"
  by (simp_all add: arity_ok_alt)

lemma buffer_inv_fields [simp]:
  "buffer_inv a (set_pc t p s) = buffer_inv a s"
  "buffer_inv a (s\<lparr>invocations := i\<rparr>) = buffer_inv a s"
  "buffer_inv a (s\<lparr>threads := ths\<rparr>) = buffer_inv a s"
  by (simp_all add: buffer_inv_def)

lemma arity_ok_begin_call:
  assumes a: "arity_ok a s" and True: "t < length (threads s)"
  shows "arity_ok a (begin_call t s)"
proof -
  show ?thesis
  proof (cases "todo (threads s ! t)")
    case Nil
    then show ?thesis using a by (simp add: begin_call_def)
  next
    case (Cons inputs rest)
    have "set rest \<subseteq> set (todo (threads s ! t))" using Cons by auto
    moreover have "threads s ! t \<in> set (threads s)" using True by simp
    ultimately have r: "\<forall>inputs\<in>set rest. \<forall>xs. list_of_args inputs = Inr xs \<longrightarrow> length xs = a"
      using a unfolding arity_ok_def by blast
    have "\<forall>th\<in>set ((threads s)[t := \<lparr>pc = p, todo = rest\<rparr>]). \<forall>inputs\<in>set (todo th). \<forall>xs.
        list_of_args inputs = Inr xs \<longrightarrow> length xs = a" for p
    proof
      fix th assume "th \<in> set ((threads s)[t := \<lparr>pc = p, todo = rest\<rparr>])"
      then have "th = \<lparr>pc = p, todo = rest\<rparr> \<or> th \<in> set (threads s)"
        using set_update_subset_insert [of "threads s" t "\<lparr>pc = p, todo = rest\<rparr>"] by auto
      then show "\<forall>inputs\<in>set (todo th). \<forall>xs. list_of_args inputs = Inr xs \<longrightarrow> length xs = a"
        using r a unfolding arity_ok_def by auto
    qed
    then show ?thesis using Cons
      by (auto simp: begin_call_def arity_ok_def split: sum.splits prod.splits)
  qed
qed

lemma buffer_inv_begin_call:
  assumes "buffer_inv a s" "arity_ok a s" "t < length (threads s)"
  shows "buffer_inv a (begin_call t s)"
proof (cases "todo (threads s ! t)")
  case Nil
  then show ?thesis using assms by (simp add: begin_call_def)
next
  case (Cons inputs rest)
  have "threads s ! t \<in> set (threads s)" using assms(3) by simp
  then have len: "\<And>xs. list_of_args inputs = Inr xs \<Longrightarrow> length xs = a"
    using assms(2) Cons unfolding arity_ok_def by auto
  show ?thesis
  proof (cases "list_of_args inputs")
    case (Inl e)
    then show ?thesis using assms(1) Cons
      by (simp add: begin_call_def push_def clear_def buffer_inv_def)
  next
    case (Inr xs)
    then show ?thesis using assms(1) Cons len [OF Inr]
      by (simp add: begin_call_def push_def clear_def buffer_inv_def Let_def algebra_simps)
  qed
qed

lemma buffer_inv_step:
  assumes b: "buffer_inv a s" and a: "arity_ok a s" and k: "keeps_length (nGPUs (sharedT s)) ar"
  shows "buffer_inv a (step ar t s) \<and> arity_ok a (step ar t s)"
proof (cases "t < length (threads s)")
  case False
  then show ?thesis using a b by (simp add: step_def)
next
  case t: True
  show ?thesis
  proof (cases "pc (threads s ! t)")
    case (Pull i)
    show ?thesis
    proof (cases "ar 2 (list (sharedT s))")
      case None
      then show ?thesis using t Pull a b
        by (simp add: step_def pull_def) (simp add: buffer_inv_def)
    next
      case (Some ys)
      have "length ys = length (list (sharedT s))"
        if "int (length (list (sharedT s))) = 2 * nGPUs (sharedT s)"
        using k that Some unfolding keeps_length_def by blast
      then show ?thesis using t Pull a b Some
        by (simp add: step_def pull_def) (simp add: buffer_inv_def)
    qed
  qed (use t a b in \<open>auto simp: step_def arity_ok_begin_call buffer_inv_begin_call
         split: sum.splits\<close>)
qed

lemma nGPUs_begin_call [simp]: "nGPUs (sharedT (begin_call t s)) = nGPUs (sharedT s)"
  by (auto simp: begin_call_def push_def clear_def Let_def split: list.splits sum.splits)

lemma nGPUs_step [simp]: "nGPUs (sharedT (step ar t s)) = nGPUs (sharedT s)"
proof (cases "t < length (threads s)")
  case False
  then show ?thesis by (simp add: step_def)
next
  case True
  then show ?thesis
    by (cases "pc (threads s ! t)")
       (auto simp: step_def pull_def split: sum.splits option.splits)
qed

lemma nGPUs_run [simp]: "nGPUs (sharedT (run ar sched s)) = nGPUs (sharedT s)"
  unfolding run_def by (induction sched arbitrary: s) simp_all

lemma buffer_inv_run:
  "buffer_inv a s \<Longrightarrow> arity_ok a s \<Longrightarrow> keeps_length (nGPUs (sharedT s)) ar \<Longrightarrow>
   buffer_inv a (run ar sched s) \<and> arity_ok a (run ar sched s)"
  unfolding run_def
  by (induction sched arbitrary: s) (simp_all add: buffer_inv_step)

lemma buffer_inv_start: "buffer_inv a (start n calls)"
  by (simp add: buffer_inv_def start_def SharedTensor_init_def clear_def)

lemma groups_concat:
  "0 < a \<Longrightarrow> \<forall>g\<in>set gs. length g = a \<Longrightarrow> groups a (concat gs) = gs"
proof (induction gs)
  case Nil
  then show ?case by simp
next
  case (Cons g gs)
  then have g: "length g = a" "g \<noteq> []" by auto
  then obtain x xs where x: "g @ concat gs = x # xs" by (cases g) auto
  have "groups a (g @ concat gs) = take a (g @ concat gs) # groups a (drop a (g @ concat gs))"
    unfolding x using Cons.prems(1) by simp
  then show ?case using g Cons by simp
qed

lemma groups_length:
  "0 < a \<Longrightarrow> length xs = n * a \<Longrightarrow>
   length (groups a xs) = n \<and> (\<forall>g\<in>set (groups a xs). length g = a)"
proof (induction n arbitrary: xs)
  case 0
  then show ?case by simp
next
  case (Suc n)
  then obtain y ys where y: "xs = y # ys" by (cases xs) auto
  have eq: "groups a xs = take a xs # groups a (drop a xs)"
    unfolding y using Suc.prems(1) by simp
  have "length (drop a xs) = n * a" using Suc.prems by simp
  from Suc.IH [OF Suc.prems(1) this] show ?case
    unfolding eq using Suc.prems by auto
qed

lemma length_add_groups [simp]: "length (add_groups xs ys) = min (length xs) (length ys)"
  by (simp add: add_groups_def)

lemma length_foldr_add_groups:
  "\<forall>g\<in>set gs. length g = a \<Longrightarrow> length (foldr add_groups gs (replicate a 0)) = a"
  by (induction gs) simp_all

lemma nth_add_groups:
  "j < length xs \<Longrightarrow> j < length ys \<Longrightarrow> add_groups xs ys ! j = xs ! j + ys ! j"
  by (simp add: add_groups_def)

lemma nth_foldr_add_groups:
  "\<forall>g\<in>set gs. length g = a \<Longrightarrow> j < a \<Longrightarrow>
   foldr add_groups gs (replicate a 0) ! j = (\<Sum>g\<leftarrow>gs. g ! j)"
proof (induction gs)
  case Nil
  then show ?case by simp
next
  case (Cons g gs)
  then show ?case
    by (simp add: nth_add_groups length_foldr_add_groups)
qed

lemma length_concat_replicate: "length (concat (replicate n xs)) = n * length xs"
  by (induction n) simp_all

lemma allreduce_sum_length:
  assumes "0 < a" "length xs = n * a" "allreduce_sum a xs = Some ys"
  shows "length ys = length xs"
  using assms groups_length [OF assms(1,2)]
  by (auto simp: allreduce_sum_def Let_def length_concat_replicate length_foldr_add_groups)

lemma nth_concat_replicate:
  "k < n \<Longrightarrow> j < length xs \<Longrightarrow> concat (replicate n xs) ! (k * length xs + j) = xs ! j"
proof (induction n arbitrary: k)
  case 0
  then show ?case by simp
next
  case (Suc n)
  show ?case
  proof (cases k)
    case 0
    then show ?thesis using Suc.prems by (simp add: nth_append)
  next
    case (Suc k')
    then show ?thesis using Suc.prems Suc.IH [of k'] by (simp add: nth_append)
  qed
qed

lemma allreduce_sum_concat:
  assumes "0 < a" "\<forall>g\<in>set gs. length g = a"
  shows "\<exists>ys. allreduce_sum a (concat gs) = Some ys \<and> length ys = length gs * a
     \<and> (\<forall>k<length gs. \<forall>j<a. ys ! (k * a + j) = (\<Sum>g\<leftarrow>gs. g ! j))"
proof -
  let ?r = "foldr add_groups gs (replicate a 0)"
  have l: "length ?r = a" using assms(2) by (rule length_foldr_add_groups)
  have "allreduce_sum a (concat gs) = Some (concat (replicate (length gs) ?r))"
    using groups_concat [OF assms] by (simp add: allreduce_sum_def)
  moreover have "length (concat (replicate (length gs) ?r)) = length gs * a"
    using l by (simp add: length_concat_replicate)
  moreover have "concat (replicate (length gs) ?r) ! (k * a + j) = (\<Sum>g\<leftarrow>gs. g ! j)"
    if "k < length gs" "j < a" for k j
    using nth_concat_replicate [of k "length gs" j ?r] that l
      nth_foldr_add_groups [OF assms(2) that(2)] by simp
  ultimately show ?thesis by blast
qed

lemma keeps_length_allreduce_sum: "0 \<le> n \<Longrightarrow> keeps_length n allreduce_sum"
  unfolding keeps_length_def
proof (intro allI impI)
  fix xs ys :: "'a list"
  assume n: "0 \<le> n" and l: "int (length xs) = 2 * n" and r: "allreduce_sum 2 xs = Some ys"
  have "length xs = nat n * 2" using n l by linarith
  then show "length ys = length xs"
    using allreduce_sum_length [of 2 xs "nat n" ys] r by simp
qed

lemma ex_arity_ok: "arity_ok 2 ex_start"
  by (simp add: arity_ok_def ex_start_def start_def)

lemma length_buffer_of:
  "\<forall>u\<in>set A. length (contrib (c u)) = a \<Longrightarrow> length (buffer_of c A) = length A * a"
  unfolding buffer_of_def by (induction A) (simp_all add: length_concat)

lemma step_pull_assert:
  assumes "t < length (threads s)" "pc (threads s ! t) = Pull i"
    "reduce_tasks (sharedT s) = nGPUs (sharedT s)"
    "int (length (list (sharedT s))) \<noteq> 2 * nGPUs (sharedT s)"
  shows "step ar t s = set_pc t (Raised AssertionError) s"
  using assms by (simp add: step_def pull_def)

lemma step_pull_no_assert:
  assumes "t < length (threads s)" "pc (threads s ! t) = Pull i"
    "int (length (list (sharedT s))) = 2 * nGPUs (sharedT s)"
  shows "pc (threads (step ar t s) ! t) \<noteq> Raised AssertionError"
  using assms
  by (cases "ar 2 (list (sharedT s))") (simp_all add: step_def pull_def)

lemma wellformed_contrib:
  "wellformed_round s0 \<Longrightarrow> t < length (threads s0) \<Longrightarrow>
   length (contrib (calls_of s0 t)) = 2 \<and> list_of_args (calls_of s0 t) \<noteq> Inl TypeError"
  unfolding wellformed_round_def by (auto simp: contrib_def)

lemma length_threads_begin_call [simp]: "length (threads (begin_call t s)) = length (threads s)"
  by (auto simp: begin_call_def split: list.splits sum.splits prod.splits)

lemma length_threads_step [simp]: "length (threads (step ar t s)) = length (threads s)"
proof (cases "t < length (threads s)")
  case False
  then show ?thesis by (simp add: step_def)
next
  case True
  then show ?thesis
    by (cases "pc (threads s ! t)")
       (auto simp: step_def split: sum.splits prod.splits pulled.splits)
qed

lemma length_threads_run [simp]: "length (threads (run ar sched s)) = length (threads s)"
  unfolding run_def by (induction sched arbitrary: s) simp_all

lemma started_full_buffer:
  assumes st: "started ar c inv0 s" and p: "push_tasks (sharedT s) = 0"
    and a: "\<forall>t<length (threads s). length (contrib (c t)) = 2"
  shows "int (length (buffer_of c (arrived s))) = 2 * nGPUs (sharedT s)"
proof -
  have "\<forall>u\<in>set (arrived s). length (contrib (c u)) = 2"
    using st a unfolding started_def by auto
  then have "length (buffer_of c (arrived s)) = length (arrived s) * 2"
    by (rule length_buffer_of)
  moreover have "int (length (arrived s)) = nGPUs (sharedT s)"
    using st p unfolding started_def by simp
  ultimately show ?thesis by simp
qed

lemma ex_wellformed: "wellformed_round ex_start"
  using ex_quiescent ex_calls
  by (auto simp: wellformed_round_def ex_start_def start_def less_Suc_eq numeral_2_eq_2)

lemma ex3_run_6:
  "run allreduce_sum [0, 1, 2, 0, 1, 2] ex3_start =
     \<lparr>sharedT = \<lparr>nGPUs = 3, list = [5, 7, 9], push_tasks = 0, reduce_tasks = 3\<rparr>,
      threads = [\<lparr>pc = Pull 0, todo = []\<rparr>, \<lparr>pc = Pull 1, todo = []\<rparr>, \<lparr>pc = Pull 2, todo = []\<rparr>],
      arrived = [0, 1, 2], issued = [0, 1, 2], invocations = []\<rparr>"
  by code_simp

lemma length_buffer_of_sum:
  "length (buffer_of c A) = sum_list (map (\<lambda>t. length (contrib (c t))) A)"
  by (simp add: buffer_of_def length_concat comp_def)

lemma sum_list_all_threads:
  assumes "distinct A" "\<forall>u\<in>set A. u < n" "length A = n"
  shows "sum_list (map f A) = sum_list (map (f :: nat \<Rightarrow> 'a::comm_monoid_add) [0..<n])"
proof -
  have "t \<in> set A" if "t < n" for t
    using all_arrived [OF assms that] .
  then have "set A = set [0..<n]" using assms(2) by auto
  moreover have "sum_list (map f A) = sum f (set A)"
    using assms(1) by (rule sum_list_distinct_conv_sum_set)
  moreover have "sum_list (map f [0..<n]) = sum f (set [0..<n])"
    by (rule interv_sum_list_conv_sum_set_nat)
  ultimately show ?thesis by simp
qed

lemma invocations_step_arity:
  assumes e: "e \<in> set (invocations (step ar t s))"
  shows "e \<in> set (invocations s) \<or> fst (snd e) = 2"
proof (cases "invocations (step ar t s) = invocations s")
  case True
  then show ?thesis using e by simp
next
  case False
  then obtain i where t: "t < length (threads s)" and pc: "pc (threads s ! t) = Pull i"
    and r: "reduce_tasks (sharedT s) = nGPUs (sharedT s)"
    using step_invocations [of ar t s] by blast
  have "invocations (step ar t s) = invocations s
      \<or> invocations (step ar t s) = invocations s @ [(t, 2, list (sharedT s))]"
    using t pc r
    by (cases "ar 2 (list (sharedT s))") (simp_all add: step_def pull_def)
  then show ?thesis using e by auto
qed

lemma invocations_run_arity:
  "e \<in> set (invocations (run ar sched s)) \<Longrightarrow> e \<in> set (invocations s) \<or> fst (snd e) = 2"
proof (induction sched arbitrary: s)
  case Nil
  then show ?case by (simp add: run_def)
next
  case (Cons t sched)
  have "run ar (t # sched) s = run ar sched (step ar t s)" by (simp add: run_def)
  then have "e \<in> set (invocations (step ar t s)) \<or> fst (snd e) = 2"
    using Cons.IH [of "step ar t s"] Cons.prems by simp
  then show ?case using invocations_step_arity [of e ar t s] by blast
qed

lemma started_total:
  assumes st: "started ar c inv0 s" and p: "push_tasks (sharedT s) = 0"
  shows "length (buffer_of c (arrived s))
     = sum_list (map (\<lambda>t. length (contrib (c t))) [0..<length (threads s)])"
proof -
  have d: "distinct (arrived s)" and b: "\<forall>u\<in>set (arrived s). u < length (threads s)"
    and l: "length (arrived s) = length (threads s)"
    using st p unfolding started_def by auto
  show ?thesis
    unfolding length_buffer_of_sum by (rule sum_list_all_threads [OF d b l])
qed

lemma malformed_round:
  assumes q: "quiescent s0" and m: "int (total_contributed s0) \<noteq> 2 * nGPUs (sharedT s0)"
    and s: "s = run ar sched s0"
  shows "invocations s = invocations s0"
    and "\<forall>u<length (threads s0). \<not> pulled (threads s ! u)"
    and "\<forall>u i. u < length (threads s0) \<and> pc (threads s ! u) = Pull i \<longrightarrow>
           pc (threads (step ar u s) ! u) = Raised AssertionError"
proof -
  let ?c = "calls_of s0" and ?i = "invocations s0"
  have inv: "round_inv ar ?c ?i s" unfolding s by (rule quiescent_run [OF q])
  have len: "length (threads s) = length (threads s0)" by (simp add: s)
  have n: "nGPUs (sharedT s) = nGPUs (sharedT s0)" by (simp add: s)
  have full: "int (length (buffer_of ?c (arrived s))) \<noteq> 2 * nGPUs (sharedT s)"
    if "started ar ?c ?i s" "push_tasks (sharedT s) = 0"
    using started_total [OF that] m unfolding total_contributed_def len n by simp
  have r: "reduce_tasks (sharedT s) = nGPUs (sharedT s)" if "started ar ?c ?i s"
    using that full [OF that] unfolding started_def by auto
  show "invocations s = ?i"
  proof (cases "drained ?c ?i s")
    case True
    then show ?thesis by (simp add: drained_def)
  next
    case False
    then have st: "started ar ?c ?i s" using inv by (simp add: round_inv_def)
    then show ?thesis using r [OF st] full [OF st] unfolding started_def by auto
  qed
  show "\<forall>u<length (threads s0). \<not> pulled (threads s ! u)"
  proof (intro allI impI)
    fix u assume u: "u < length (threads s0)"
    show "\<not> pulled (threads s ! u)"
    proof (cases "drained ?c ?i s")
      case True
      then show ?thesis using u len idle_not_pulled [of "threads s ! u"]
        by (auto simp: drained_def)
    next
      case False
      then have st: "started ar ?c ?i s" using inv by (simp add: round_inv_def)
      have "npulled (threads s) = 0" using r [OF st] st unfolding started_def by simp
      then show ?thesis using npulled_pos [of u "threads s"] u len by auto
    qed
  qed
  show "\<forall>u i. u < length (threads s0) \<and> pc (threads s ! u) = Pull i \<longrightarrow>
           pc (threads (step ar u s) ! u) = Raised AssertionError"
  proof (intro allI impI)
    fix u i assume h: "u < length (threads s0) \<and> pc (threads s ! u) = Pull i"
    then have u: "u < length (threads s)" and pc: "pc (threads s ! u) = Pull i"
      using len by simp_all
    have ni: "\<not> idle (pc (threads s ! u))" using pc by simp
    have st: "started ar ?c ?i s"
      using inv u ni by (auto simp: round_inv_def drained_def)
    have p0: "push_tasks (sharedT s) = 0"
      using started_busy(3) [OF st u ni] pc by auto
    have "list (sharedT s) = buffer_of ?c (arrived s)"
      using st r [OF st] unfolding started_def by simp
    then have "int (length (list (sharedT s))) \<noteq> 2 * nGPUs (sharedT s)"
      using full [OF st p0] by simp
    then have "step ar u s = set_pc u (Raised AssertionError) s"
      using step_pull_assert [OF u pc r [OF st]] by simp
    then show "pc (threads (step ar u s) ! u) = Raised AssertionError"
      using u by simp
  qed
qed

lemma returned_pair:
  assumes q: "quiescent s0" and s: "s = run ar sched s0"
    and k: "k < length (arrived s)"
    and r: "pc (threads s ! (arrived s ! k)) = Returned x y"
    and t: "todo (threads s ! (arrived s ! k)) = []"
    and lt: "arrived s ! k < length (threads s)"
  shows "getitem (list (sharedT s)) (2 * int k) = Inr x
     \<and> getitem (list (sharedT s)) (2 * int k + 1) = Inr y"
proof -
  let ?c = "calls_of s0" and ?i = "invocations s0" and ?u = "arrived s ! k"
  have inv: "round_inv ar ?c ?i s" unfolding s by (rule quiescent_run [OF q])
  have st: "started ar ?c ?i s" using begun_started [OF inv lt t] .
  have "thread_ok ar ?c (sharedT s) (arrived s) ?u (threads s ! ?u)"
    using st lt by (rule started_thread_ok)
  moreover have "?u \<in> set (arrived s)" using k by simp
  ultimately have "pc_ok ar (sharedT s) (int k) (pc (threads s ! ?u))"
    using k unfolding thread_ok_def by simp
  then show ?thesis unfolding r by simp
qed

lemma ex_run_8:
  "run allreduce_sum [0, 1, 0, 1, 0, 1, 0, 1] ex_start =
     \<lparr>sharedT = \<lparr>nGPUs = 2, list = [30, 20, 30, 20], push_tasks = 0, reduce_tasks = 0\<rparr>,
      threads = [\<lparr>pc = Read 0, todo = []\<rparr>, \<lparr>pc = Read 1, todo = []\<rparr>],
      arrived = [0, 1], issued = [0, 1], invocations = [(0, 2, [10, 4, 20, 16])]\<rparr>"
  by code_simp

lemma ex_run_10:
  "run allreduce_sum [0, 1, 0, 1, 0, 1, 0, 1, 0, 1] ex_start =
     \<lparr>sharedT = \<lparr>nGPUs = 2, list = [30, 20, 30, 20], push_tasks = 0, reduce_tasks = 0\<rparr>,
      threads = [\<lparr>pc = Read2 0 30, todo = []\<rparr>, \<lparr>pc = Read2 1 30, todo = []\<rparr>],
      arrived = [0, 1], issued = [0, 1], invocations = [(0, 2, [10, 4, 20, 16])]\<rparr>"
  by code_simp

lemma ex3_quiescent: "quiescent ex3_start"
  by (simp add: ex3_start_def start_def quiescent_def SharedTensor_init_def clear_def)

lemma ex3_total: "total_contributed ex3_start = 3"
  by (simp add: total_contributed_def ex3_start_def start_def calls_of_def contrib_def upt_rec)

lemma stage_wake: "stage (wake p) = (if stage p = 2 then 3 else if stage p = 6 then 7 else stage p)"
  by (cases p) simp_all

lemma some_at_update:
  "t < length ths \<Longrightarrow>
   some_at k (ths[t := th']) \<longleftrightarrow>
     stage (pc th') = k \<or> (\<exists>u<length ths. u \<noteq> t \<and> stage (pc (ths ! u)) = k)"
  unfolding some_at_def by (auto simp: nth_list_update)

lemma some_at_keep:
  "t < length ths \<Longrightarrow> stage (pc (ths ! t)) \<noteq> k \<Longrightarrow> some_at k ths \<Longrightarrow>
   some_at k (ths[t := th'])"
  unfolding some_at_def by (auto simp: nth_list_update)

lemma some_at_new:
  "t < length ths \<Longrightarrow> stage (pc th') \<noteq> k \<Longrightarrow> some_at k (ths[t := th']) \<Longrightarrow>
   some_at k ths"
  unfolding some_at_def by (auto simp: nth_list_update split: if_splits)

lemma some_at_self:
  "t < length ths \<Longrightarrow> stage (pc th') = k \<Longrightarrow> some_at k (ths[t := th'])"
  unfolding some_at_def by (auto simp: nth_list_update)

lemma no_sleep_notify:
  "\<not> some_at 2 ((notify_all ths)[t := th'])" if "t < length ths" "stage (pc th') \<noteq> 2"
  using that unfolding some_at_def by (auto simp: nth_list_update stage_wake)

lemma no_sleep_notify':
  "\<not> some_at 6 ((notify_all ths)[t := th'])" if "t < length ths" "stage (pc th') \<noteq> 6"
  using that unfolding some_at_def by (auto simp: nth_list_update stage_wake)

lemma wake_inv_notify:
  assumes "t < length (threads s)" "stage p' \<noteq> 2" "stage p' \<noteq> 6"
  shows "wake_inv (set_pc t p' (s\<lparr>threads := notify_all (threads s)\<rparr>))"
  using assms no_sleep_notify [of t "threads s"] no_sleep_notify' [of t "threads s"]
  unfolding wake_inv_def set_pc_def by simp

lemma wake_inv_move:
  assumes w: "wake_inv s" and t: "t < length (threads s)"
    and old: "stage (pc (threads s ! t)) \<noteq> 1" "stage (pc (threads s ! t)) \<noteq> 5"
    and new: "stage p' \<noteq> 2" "stage p' \<noteq> 6"
  shows "wake_inv (set_pc t p' s)"
  using w some_at_keep [OF t old(1)] some_at_keep [OF t old(2)]
    some_at_new [OF t, of "(threads s ! t)\<lparr>pc := p'\<rparr>" 2]
    some_at_new [OF t, of "(threads s ! t)\<lparr>pc := p'\<rparr>" 6] new
  unfolding wake_inv_def set_pc_def by auto

lemma wake_inv_push_sleep:
  assumes w: "wake_inv s" and t: "t < length (threads s)"
    and old: "stage (pc (threads s ! t)) \<noteq> 5" and p: "push_tasks (sharedT s) \<noteq> 0"
  shows "wake_inv (set_pc t (Push_sleep i) s)"
  using w p some_at_keep [OF t old]
    some_at_new [OF t, of "(threads s ! t)\<lparr>pc := Push_sleep i\<rparr>" 6]
  unfolding wake_inv_def set_pc_def by auto

lemma wake_inv_reduce_sleep:
  assumes w: "wake_inv s" and t: "t < length (threads s)"
    and old: "stage (pc (threads s ! t)) \<noteq> 1" and r: "reduce_tasks (sharedT s) \<noteq> 0"
  shows "wake_inv (set_pc t (Reduce_sleep i) s)"
  using w r some_at_keep [OF t old]
    some_at_new [OF t, of "(threads s ! t)\<lparr>pc := Reduce_sleep i\<rparr>" 2]
  unfolding wake_inv_def set_pc_def by auto

lemma wake_inv_pulled:
  assumes w: "wake_inv s" and t: "t < length (threads s)"
    and old: "stage (pc (threads s ! t)) = 4"
    and st: "push_tasks st' = push_tasks (sharedT s)"
  shows "wake_inv (set_pc t (Reduce_enter i) (s\<lparr>sharedT := st', invocations := x\<rparr>))"
proof -
  have o: "stage (pc (threads s ! t)) \<noteq> 1" using old by simp
  show ?thesis
    using w st some_at_keep [OF t o]
      some_at_new [OF t, of "(threads s ! t)\<lparr>pc := Reduce_enter i\<rparr>" 2]
      some_at_self [OF t, of "(threads s ! t)\<lparr>pc := Reduce_enter i\<rparr>" 5]
    unfolding wake_inv_def set_pc_def by auto
qed

lemma wake_inv_invocations [simp]: "wake_inv (s\<lparr>invocations := x\<rparr>) = wake_inv s"
  by (simp add: wake_inv_def)

lemma idle_stage: "idle p \<longleftrightarrow> stage p = 0 \<or> stage p = 10 \<or> stage p = 11"
  by (cases p) simp_all

lemma started_idle_push:
  assumes s: "started ar c inv0 s" and t: "t < length (threads s)"
    and i: "idle (pc (threads s ! t))" and td: "todo (threads s ! t) \<noteq> []"
  shows "push_tasks (sharedT s) \<noteq> 0" "t \<notin> set (arrived s)"
    "list_of_args (c t) \<noteq> Inl TypeError \<or> todo (threads s ! t) = [c t]"
proof -
  have tok: "thread_ok ar c (sharedT s) (arrived s) t (threads s ! t)"
    using s t by (rule started_thread_ok)
  show notin: "t \<notin> set (arrived s)"
    using tok td unfolding thread_ok_def by (auto split: if_splits)
  show "list_of_args (c t) \<noteq> Inl TypeError \<or> todo (threads s ! t) = [c t]"
    using tok td unfolding thread_ok_def by (auto split: if_splits)
  have len: "int (length (threads s)) = nGPUs (sharedT s)"
    and dist: "distinct (arrived s)" and bnd: "\<forall>u\<in>set (arrived s). u < length (threads s)"
    and p: "push_tasks (sharedT s) = nGPUs (sharedT s) - int (length (arrived s))"
    using s unfolding started_def by simp_all
  show "push_tasks (sharedT s) \<noteq> 0"
  proof
    assume "push_tasks (sharedT s) = 0"
    then have "length (arrived s) = length (threads s)" using p len by simp
    then have "t \<in> set (arrived s)" using all_arrived [OF dist bnd _ t] by simp
    then show False using notin by simp
  qed
qed

lemma wake_inv_begin_call:
  assumes w: "wake_inv s" and t: "t < length (threads s)"
    and i: "idle (pc (threads s ! t))"
    and c: "push_tasks (sharedT s) \<noteq> 0
        \<or> (\<forall>u<length (threads s). idle (pc (threads s ! u)))"
  shows "wake_inv (begin_call t s)"
proof (cases "todo (threads s ! t)")
  case Nil
  then show ?thesis using w by (simp add: begin_call_def)
next
  case (Cons inputs rest)
  have o: "stage (pc (threads s ! t)) \<noteq> 5" "stage (pc (threads s ! t)) \<noteq> 1"
    using i by (auto simp: idle_stage)
  have quiet: "\<not> some_at 2 (threads s) \<and> \<not> some_at 6 (threads s)"
    if "\<forall>u<length (threads s). idle (pc (threads s ! u))"
    using that unfolding some_at_def by (auto simp: idle_stage)
  show ?thesis
  proof (cases "list_of_args inputs")
    case (Inl e)
    let ?th = "\<lparr>pc = Raised e, todo = rest\<rparr>"
    have n: "stage (pc ?th) \<noteq> 2" "stage (pc ?th) \<noteq> 6" by simp_all
    show ?thesis
      using w c Cons Inl quiet some_at_new [OF t n(1)] some_at_new [OF t n(2)]
        some_at_keep [OF t o(1), of ?th] some_at_keep [OF t o(2), of ?th]
      unfolding wake_inv_def
      by (auto simp: begin_call_def push_def)
  next
    case (Inr xs)
    define idx where "idx = nGPUs (sharedT s) - (if push_tasks (sharedT s) = 0
        then nGPUs (sharedT s) else push_tasks (sharedT s))"
    let ?th = "\<lparr>pc = Push_enter idx, todo = rest\<rparr>"
    have n: "stage (pc ?th) \<noteq> 2" "stage (pc ?th) \<noteq> 6" by simp_all
    have th: "threads (begin_call t s) = (threads s)[t := ?th]"
      using Cons Inr by (simp add: begin_call_def push_def clear_def Let_def idx_def)
    have r: "reduce_tasks (sharedT (begin_call t s)) = reduce_tasks (sharedT s)"
      if "push_tasks (sharedT s) \<noteq> 0"
      using Cons Inr that by (simp add: begin_call_def push_def Let_def)
    have self: "some_at 1 ((threads s)[t := ?th])"
      using some_at_self [OF t, of ?th 1] by simp
    show ?thesis
      using w c quiet some_at_new [OF t n(1)] some_at_new [OF t n(2)]
        some_at_keep [OF t o(1), of ?th] self r
      unfolding wake_inv_def th
      by auto
  qed
qed

lemma wake_inv_step:
  assumes r: "round_inv ar c inv0 s" and w: "wake_inv s"
  shows "wake_inv (step ar t s)"
proof (cases "t < length (threads s)")
  case False
  then show ?thesis using w by (simp add: step_def)
next
  case t: True
  show ?thesis
  proof (cases "idle (pc (threads s ! t))")
    case True
    have eq: "step ar t s = begin_call t s" using t True by (rule step_idle)
    show ?thesis
    proof (cases "todo (threads s ! t) = []")
      case True
      then show ?thesis using w unfolding eq by (simp add: begin_call_def)
    next
      case False
      have "push_tasks (sharedT s) \<noteq> 0
        \<or> (\<forall>u<length (threads s). idle (pc (threads s ! u)))"
        using r started_idle_push(1) [OF _ t True False]
        by (auto simp: round_inv_def drained_def)
      then show ?thesis unfolding eq using wake_inv_begin_call [OF w t True] by simp
    qed
  next
    case ni: False
    show ?thesis
    proof (cases "pc (threads s ! t)")
      case (Push_enter i)
      then show ?thesis using t w
        by (auto simp: step_def intro!: wake_inv_notify wake_inv_push_sleep)
    next
      case (Push_sleep i)
      then show ?thesis using t w by (simp add: step_def)
    next
      case (Push_woken i)
      then show ?thesis using t w
        by (auto simp: step_def intro!: wake_inv_move wake_inv_push_sleep)
    next
      case (Pull i)
      show ?thesis
      proof (cases "pull ar (sharedT s)")
        case (Pair res calls)
        have pt: "push_tasks st' = push_tasks (sharedT s)"
          if "res = Reduced st' \<or> res = Skipped st'" for st'
          using Pair that by (auto simp: pull_def split: if_splits option.splits)
        show ?thesis
        proof (cases res)
          case (Failed e)
          then show ?thesis using t w Pull Pair
            by (auto simp: step_def intro!: wake_inv_move)
        next
          case (Reduced st')
          then show ?thesis using t w Pull Pair pt [of st']
            by (auto simp: step_def intro!: wake_inv_pulled)
        next
          case (Skipped st')
          then show ?thesis using t w Pull Pair pt [of st']
            by (auto simp: step_def intro!: wake_inv_pulled)
        qed
      qed
    next
      case (Reduce_enter i)
      then show ?thesis using t w
        by (auto simp: step_def intro!: wake_inv_notify wake_inv_reduce_sleep)
    next
      case (Reduce_sleep i)
      then show ?thesis using t w by (simp add: step_def)
    next
      case (Reduce_woken i)
      then show ?thesis using t w
        by (auto simp: step_def intro!: wake_inv_move wake_inv_reduce_sleep)
    next
      case (Read i)
      then show ?thesis using t w
        by (auto simp: step_def intro!: wake_inv_move split: sum.splits)
    next
      case (Read2 i a)
      then show ?thesis using t w
        by (auto simp: step_def intro!: wake_inv_move split: sum.splits)
    qed (use ni in simp_all)
  qed
qed

lemma pc_weight_wake: "pc_weight n (wake p) \<le> pc_weight n p + 1"
  by (cases p) simp_all

lemma weight_notify: "sum_list (map (weight n) (notify_all ths)) \<le> sum_list (map (weight n) ths) + length ths"
proof (induction ths)
  case Nil
  then show ?case by (simp add: notify_all_def)
next
  case (Cons th ths)
  have "weight n (th\<lparr>pc := wake (pc th)\<rparr>) \<le> weight n th + 1"
    using pc_weight_wake [of n "pc th"] by (simp add: weight_def)
  then show ?case using Cons by (simp add: notify_all_def)
qed

lemma sum_list_update_nat:
  "t < length xs \<Longrightarrow> sum_list (xs[t := y]) + xs ! t = sum_list xs + (y::nat)"
  by (induction xs arbitrary: t) (auto split: nat.splits)

lemma weight_update:
  "t < length ths \<Longrightarrow>
   sum_list (map (weight n) (ths[t := th'])) + weight n (ths ! t)
     = sum_list (map (weight n) ths) + weight n th'"
  using sum_list_update_nat [of t "map (weight n) ths" "weight n th'"]
  by (simp add: map_update)

lemma potential_set_pc:
  assumes "t < length (threads s)" "pc_weight (length (threads s)) p' < pc_weight (length (threads s)) (pc (threads s ! t))"
  shows "potential (set_pc t p' s) < potential s"
  using weight_update [OF assms(1), of "length (threads s)" "(threads s ! t)\<lparr>pc := p'\<rparr>"] assms(2)
  unfolding potential_def set_pc_def by (simp add: weight_def)

lemma potential_notify_set_pc:
  assumes t: "t < length (threads s)"
    and w: "pc_weight (length (threads s)) p' + length (threads s)
              < pc_weight (length (threads s)) (pc (threads s ! t))"
    and k: "wake (pc (threads s ! t)) = pc (threads s ! t)"
  shows "potential (set_pc t p' (s\<lparr>threads := notify_all (threads s)\<rparr>)) < potential s"
proof -
  let ?n = "length (threads s)" and ?ths = "notify_all (threads s)"
  have t': "t < length ?ths" using t by simp
  have "sum_list (map (weight ?n) (?ths[t := (?ths ! t)\<lparr>pc := p'\<rparr>])) + weight ?n (?ths ! t)
      = sum_list (map (weight ?n) ?ths) + weight ?n ((?ths ! t)\<lparr>pc := p'\<rparr>)"
    by (rule weight_update [OF t'])
  moreover have "weight ?n (?ths ! t) = weight ?n (threads s ! t)"
    using t k by (simp add: weight_def)
  moreover have "weight ?n ((?ths ! t)\<lparr>pc := p'\<rparr>) + ?n < weight ?n (threads s ! t)"
    using t w by (simp add: weight_def)
  moreover have "sum_list (map (weight ?n) ?ths) \<le> sum_list (map (weight ?n) (threads s)) + ?n"
    by (rule weight_notify)
  ultimately show ?thesis unfolding potential_def set_pc_def by simp
qed

lemma potential_fields [simp]:
  "potential (s\<lparr>sharedT := st\<rparr>) = potential s"
  "potential (s\<lparr>invocations := x\<rparr>) = potential s"
  by (simp_all add: potential_def)

lemma potential_set_pc_frame:
  assumes "threads s' = threads s" "t < length (threads s)"
    "pc_weight (length (threads s)) p' < pc_weight (length (threads s)) (pc (threads s ! t))"
  shows "potential (set_pc t p' s') < potential s"
proof -
  have "potential s' = potential s" using assms(1) by (simp add: potential_def)
  then show ?thesis using potential_set_pc [of t s' p'] assms by simp
qed

lemma potential_begin_call:
  assumes t: "t < length (threads s)" and td: "todo (threads s ! t) \<noteq> []"
    and i: "idle (pc (threads s ! t))"
  shows "potential (begin_call t s) < potential s"
proof -
  let ?n = "length (threads s)"
  obtain inputs rest where c: "todo (threads s ! t) = inputs # rest"
    using td by (cases "todo (threads s ! t)") auto
  have "\<exists>p'. threads (begin_call t s) = (threads s)[t := \<lparr>pc = p', todo = rest\<rparr>]"
    using c by (auto simp: begin_call_def split: sum.splits prod.splits)
  then obtain p' where th: "threads (begin_call t s) = (threads s)[t := \<lparr>pc = p', todo = rest\<rparr>]"
    by blast
  have "pc_weight ?n p' \<le> 2 * ?n + 11" by (cases p') simp_all
  then have "weight ?n \<lparr>pc = p', todo = rest\<rparr> < weight ?n (threads s ! t)"
    using c by (simp add: weight_def)
  then show ?thesis
    using weight_update [OF t, of ?n "\<lparr>pc = p', todo = rest\<rparr>"]
    unfolding potential_def th by simp
qed

lemma potential_step:
  assumes t: "t < length (threads s)" and a: "active (threads s ! t)"
  shows "potential (step ar t s) < potential s"
proof (cases "idle (pc (threads s ! t))")
  case True
  then have "todo (threads s ! t) \<noteq> []" using a by (simp add: active_def finished_def)
  then show ?thesis using potential_begin_call [OF t _ True] step_idle [OF t True] by simp
next
  case ni: False
  show ?thesis
  proof (cases "pc (threads s ! t)")
    case (Push_enter i)
    then show ?thesis using t
      by (auto simp: step_def intro!: potential_set_pc potential_notify_set_pc)
  next
    case (Push_sleep i)
    then show ?thesis using a by (simp add: active_def)
  next
    case (Push_woken i)
    then show ?thesis using t by (auto simp: step_def intro!: potential_set_pc)
  next
    case (Pull i)
    obtain res calls where p: "pull ar (sharedT s) = (res, calls)"
      by (cases "pull ar (sharedT s)") auto
    show ?thesis using Pull t p
      by (cases res) (auto simp: step_def intro!: potential_set_pc_frame)
  next
    case (Reduce_enter i)
    then show ?thesis using t
      by (auto simp: step_def intro!: potential_set_pc potential_notify_set_pc)
  next
    case (Reduce_sleep i)
    then show ?thesis using a by (simp add: active_def)
  next
    case (Reduce_woken i)
    then show ?thesis using t by (auto simp: step_def intro!: potential_set_pc)
  next
    case (Read i)
    then show ?thesis using t
      by (auto simp: step_def intro!: potential_set_pc split: sum.splits)
  next
    case (Read2 i x)
    then show ?thesis using t
      by (auto simp: step_def intro!: potential_set_pc split: sum.splits)
  qed (use ni in simp_all)
qed

lemma npulled_all: "(\<forall>u<length ths. pulled (ths ! u)) \<Longrightarrow> npulled ths = int (length ths)"
  unfolding npulled_def
proof (induction ths)
  case Nil
  then show ?case by simp
next
  case (Cons th ths)
  have "pulled th" using Cons.prems [rule_format, of 0] by simp
  moreover have "\<forall>u<length ths. pulled (ths ! u)"
    using Cons.prems [rule_format, of "Suc u" for u] by simp
  ultimately show ?case using Cons.IH by simp
qed

lemma missing_arrival:
  assumes "distinct A" "\<forall>u\<in>set A. u < n" "length A < n"
  shows "\<exists>t<n. t \<notin> set A"
proof (rule ccontr)
  assume "\<not> (\<exists>t<n. t \<notin> set A)"
  then have "{..<n} \<subseteq> set A" by auto
  then have "card {..<n} \<le> card (set A)" by (intro card_mono) simp_all
  then show False using assms(1,3) by (simp add: distinct_card)
qed

lemma sleeper_stage:
  "\<not> active th \<Longrightarrow> \<not> finished th \<Longrightarrow> stage (pc th) = 2 \<or> stage (pc th) = 6"
  by (auto simp: active_def)

lemma progress:
  assumes r: "round_inv ar c inv0 s" and w: "wake_inv s"
    and nt: "no_type_error c (length (threads s))"
    and nf: "\<not> (\<forall>t<length (threads s). finished (threads s ! t))"
  shows "\<exists>t<length (threads s). active (threads s ! t)"
proof (rule ccontr)
  let ?n = "length (threads s)"
  assume na: "\<not> (\<exists>t<?n. active (threads s ! t))"
  then have na': "\<And>t. t < ?n \<Longrightarrow> \<not> active (threads s ! t)" by blast
  obtain u where u: "u < ?n" and uf: "\<not> finished (threads s ! u)"
    using nf by blast
  have us: "stage (pc (threads s ! u)) = 2 \<or> stage (pc (threads s ! u)) = 6"
    using sleeper_stage [OF na' [OF u] uf] .
  have nd: "\<not> drained c inv0 s"
    using us u by (auto simp: drained_def idle_stage)
  then have st: "started ar c inv0 s" using r by (simp add: round_inv_def)
  have len: "int ?n = nGPUs (sharedT s)"
    and dist: "distinct (arrived s)" and bnd: "\<forall>u\<in>set (arrived s). u < ?n"
    and p: "push_tasks (sharedT s) = nGPUs (sharedT s) - int (length (arrived s))"
    and rt: "reduce_tasks (sharedT s) = nGPUs (sharedT s) - npulled (threads s)"
    using st unfolding started_def by simp_all
  have nok: "\<not> some_at k (threads s)" if "k = 1 \<or> k = 5" for k
  proof
    assume "some_at k (threads s)"
    then obtain v where v: "v < ?n" and "stage (pc (threads s ! v)) = k"
      by (auto simp: some_at_def)
    then have "active (threads s ! v)"
      using that by (auto simp: active_def finished_def idle_stage)
    then show False using na' [OF v] by simp
  qed
  have no1: "\<not> some_at 1 (threads s)" and no5: "\<not> some_at 5 (threads s)"
    using nok by simp_all
  have outside: False if v: "v < ?n" and o: "v \<notin> set (arrived s)" for v
  proof -
    have "thread_ok ar c (sharedT s) (arrived s) v (threads s ! v)"
      using st v by (rule started_thread_ok)
    then have "idle (pc (threads s ! v)) \<and> todo (threads s ! v) = [c v]"
      using o nt v unfolding thread_ok_def no_type_error_def by auto
    then have "active (threads s ! v)"
      by (auto simp: active_def finished_def idle_stage)
    then show False using na' [OF v] by simp
  qed
  have no2: "\<not> some_at 2 (threads s)"
  proof
    assume "some_at 2 (threads s)"
    then have "push_tasks (sharedT s) \<noteq> 0" using w no1 by (auto simp: wake_inv_def)
    moreover have "length (arrived s) \<le> ?n"
      using dist bnd distinct_card [of "arrived s"] card_mono [of "{..<?n}" "set (arrived s)"]
      by auto
    ultimately have "length (arrived s) < ?n" using p len by linarith
    then obtain v where "v < ?n" "v \<notin> set (arrived s)"
      using missing_arrival [OF dist bnd] by blast
    then show False using outside by blast
  qed
  then have u6: "stage (pc (threads s ! u)) = 6"
    using us u by (auto simp: some_at_def)
  then have "some_at 6 (threads s)" using u by (auto simp: some_at_def)
  then have rnz: "reduce_tasks (sharedT s) \<noteq> 0" using w no5 by (auto simp: wake_inv_def)
  have ui: "\<not> idle (pc (threads s ! u))" using u6 by (simp add: idle_stage)
  have rlt: "reduce_tasks (sharedT s) < nGPUs (sharedT s)"
    using started_busy(3) [OF st u ui] u6 by (cases "pc (threads s ! u)") auto
  have "npulled (threads s) \<noteq> int ?n" using rnz rt len by simp
  then obtain v where v: "v < ?n" and vp: "\<not> pulled (threads s ! v)"
    using npulled_all [of "threads s"] by blast
  have vin: "v \<in> set (arrived s)" using outside [OF v] by blast
  have vs: "finished (threads s ! v)"
  proof (rule ccontr)
    assume "\<not> finished (threads s ! v)"
    then have "stage (pc (threads s ! v)) = 2 \<or> stage (pc (threads s ! v)) = 6"
      using sleeper_stage [OF na' [OF v]] by blast
    then show False
      using no2 v vp by (cases "pc (threads s ! v)") (auto simp: some_at_def pulled_def)
  qed
  have "thread_ok ar c (sharedT s) (arrived s) v (threads s ! v)"
    using st v by (rule started_thread_ok)
  then obtain k where "pc_ok ar (sharedT s) (int k) (pc (threads s ! v))"
    using vin unfolding thread_ok_def by (auto simp: in_set_conv_nth)
  then show False
    using vs vp rlt
    by (cases "pc (threads s ! v)")
       (auto simp: finished_def pulled_def split: error.splits)
qed

lemma run_Cons: "run ar (t # sched) s = run ar sched (step ar t s)"
  by (simp add: run_def)

lemma completes:
  assumes "round_inv ar c inv0 s" "wake_inv s" "no_type_error c (length (threads s))"
  shows "\<exists>sched. \<forall>t<length (threads s). finished (threads (run ar sched s) ! t)"
  using assms
proof (induction "potential s" arbitrary: s rule: less_induct)
  case less
  show ?case
  proof (cases "\<forall>t<length (threads s). finished (threads s ! t)")
    case True
    then have "\<forall>t<length (threads s). finished (threads (run ar [] s) ! t)"
      by (simp add: run_def)
    then show ?thesis by blast
  next
    case False
    then obtain t where t: "t < length (threads s)" and a: "active (threads s ! t)"
      using progress [OF less.prems(1,2,3)] by blast
    let ?s = "step ar t s"
    have "potential ?s < potential s" using t a by (rule potential_step)
    moreover have "round_inv ar c inv0 ?s" using less.prems(1) by (rule round_inv_step)
    moreover have "wake_inv ?s" using less.prems(1,2) by (rule wake_inv_step)
    moreover have "no_type_error c (length (threads ?s))" using less.prems(3) by simp
    ultimately obtain sched where "\<forall>u<length (threads ?s). finished (threads (run ar sched ?s) ! u)"
      using less.hyps [of ?s] by blast
    then have "\<forall>u<length (threads s). finished (threads (run ar (t # sched) s) ! u)"
      by (simp add: run_Cons)
    then show ?thesis by blast
  qed
qed

lemma wake_inv_run:
  "round_inv ar c inv0 s \<Longrightarrow> wake_inv s \<Longrightarrow> wake_inv (run ar sched s)"
  unfolding run_def
  by (induction sched arbitrary: s) (simp_all add: round_inv_step wake_inv_step)

lemma quiescent_wake_inv:
  assumes "quiescent s"
  shows "wake_inv s"
proof -
  have "idle (pc (threads s ! u))" if "u < length (threads s)" for u
    using assms nth_mem [OF that] unfolding quiescent_def by blast
  then have "stage (pc (threads s ! u)) \<noteq> 2 \<and> stage (pc (threads s ! u)) \<noteq> 6"
    if "u < length (threads s)" for u
    using that by (force simp: idle_stage)
  then have "\<not> some_at 2 (threads s)" "\<not> some_at 6 (threads s)"
    unfolding some_at_def by blast+
  then show ?thesis by (simp add: wake_inv_def)
qed

lemma run_append: "run ar (xs @ ys) s = run ar ys (run ar xs s)"
  by (simp add: run_def)

lemma round_completes:
  assumes q: "quiescent s0" and nt: "no_type_error (calls_of s0) (length (threads s0))"
  shows "\<exists>more. \<forall>t<length (threads s0). finished (threads (run ar (sched @ more) s0) ! t)"
proof -
  let ?s = "run ar sched s0"
  have "round_inv ar (calls_of s0) (invocations s0) ?s" by (rule quiescent_run [OF q])
  moreover have "wake_inv ?s"
    by (rule wake_inv_run [OF quiescent_round_inv [OF q] quiescent_wake_inv [OF q]])
  moreover have "no_type_error (calls_of s0) (length (threads ?s))" using nt by simp
  ultimately obtain more where "\<forall>t<length (threads ?s). finished (threads (run ar more ?s) ! t)"
    using completes by blast
  then show ?thesis by (auto simp: run_append)
qed

lemma sums_groups_allreduce_sum: "sums_groups allreduce_sum"
  unfolding sums_groups_def
proof (intro allI impI)
  fix gs :: "'a list list"
  assume "\<forall>g\<in>set gs. length g = 2"
  then show "\<exists>ys. allreduce_sum 2 (concat gs) = Some ys \<and> length ys = length gs * 2
           \<and> (\<forall>k<length gs. \<forall>j<2. ys ! (k * 2 + j) = (\<Sum>g\<leftarrow>gs. g ! j))"
    by (rule allreduce_sum_concat [of 2 gs, simplified])
qed

lemma wellformed_no_type_error:
  "wellformed_round s0 \<Longrightarrow> no_type_error (calls_of s0) (length (threads s0))"
  unfolding no_type_error_def using wellformed_contrib by blast

lemma getitem_nth: "k < length xs \<Longrightarrow> getitem xs (int k) = Inr (xs ! k)"
  by (simp add: getitem_def)

lemma reduced_buffer:
  assumes w: "wellformed_round s0" and sg: "sums_groups ar" and s: "s = run ar sched s0"
    and st: "started ar (calls_of s0) (invocations s0) s"
    and p: "push_tasks (sharedT s) = 0"
  shows "\<exists>ys. ar 2 (buffer_of (calls_of s0) (arrived s)) = Some ys
      \<and> length ys = 2 * length (threads s0)
      \<and> int (length (buffer_of (calls_of s0) (arrived s))) = 2 * nGPUs (sharedT s)
      \<and> (\<forall>k<length (threads s0). \<forall>j<2. ys ! (k * 2 + j) = column_sum s0 j)"
proof -
  let ?c = "calls_of s0" and ?A = "arrived s"
  let ?gs = "map (\<lambda>t. contrib (?c t)) ?A"
  have len: "length (threads s) = length (threads s0)" by (simp add: s)
  have d: "distinct ?A" and b: "\<forall>u\<in>set ?A. u < length (threads s)"
    and l: "length ?A = length (threads s)"
    using st p unfolding started_def by auto
  have two: "\<forall>g\<in>set ?gs. length g = 2"
    using b len wellformed_contrib [OF w] by auto
  obtain ys where ys: "ar 2 (concat ?gs) = Some ys" "length ys = length ?gs * 2"
    "\<forall>k<length ?gs. \<forall>j<2. ys ! (k * 2 + j) = (\<Sum>g\<leftarrow>?gs. g ! j)"
    using sg two unfolding sums_groups_def by blast
  have col: "(\<Sum>g\<leftarrow>?gs. g ! j) = column_sum s0 j" for j
    using sum_list_all_threads [OF d b l, of "\<lambda>t. contrib (?c t) ! j"]
    by (simp add: column_sum_def comp_def len)
  have full: "int (length (buffer_of ?c ?A)) = 2 * nGPUs (sharedT s)"
    using started_full_buffer [OF st p] wellformed_contrib [OF w] len by simp
  show ?thesis
    using ys col l len full unfolding buffer_of_def by auto
qed

lemma wellformed_outcome:
  assumes w: "wellformed_round s0" and sg: "sums_groups ar" and s: "s = run ar sched s0"
    and t: "t < length (threads s0)" and td: "todo (threads s ! t) = []"
    and i: "idle (pc (threads s ! t))"
  shows "pc (threads s ! t) = Returned (column_sum s0 0) (column_sum s0 1)"
proof -
  let ?c = "calls_of s0" and ?A = "arrived s" and ?st = "sharedT s"
  have q: "quiescent s0" using w by (simp add: wellformed_round_def)
  have len: "length (threads s) = length (threads s0)" by (simp add: s)
  have t': "t < length (threads s)" using t len by simp
  have inv: "round_inv ar ?c (invocations s0) s" unfolding s by (rule quiescent_run [OF q])
  have st: "started ar ?c (invocations s0) s" using begun_started [OF inv t' td] .
  have tok: "thread_ok ar ?c ?st ?A t (threads s ! t)" using st t' by (rule started_thread_ok)
  have nte: "list_of_args (?c t) \<noteq> Inl TypeError" using wellformed_contrib [OF w t] by simp
  have tin: "t \<in> set ?A" using tok td nte unfolding thread_ok_def by (auto split: if_splits)
  then obtain k where k: "k < length ?A" "?A ! k = t" by (auto simp: in_set_conv_nth)
  have ok: "pc_ok ar ?st (int k) (pc (threads s ! t))"
    using tok tin k unfolding thread_ok_def by simp
  have p0: "push_tasks ?st = 0"
    using ok i by (cases "pc (threads s ! t)") (auto split: error.splits)
  obtain ys where ys: "ar 2 (buffer_of ?c ?A) = Some ys" "length ys = 2 * length (threads s0)"
    "int (length (buffer_of ?c ?A)) = 2 * nGPUs ?st"
    "\<forall>k<length (threads s0). \<forall>j<2. ys ! (k * 2 + j) = column_sum s0 j"
    using reduced_buffer [OF w sg s st p0] by blast
  have kn: "k < length (threads s0)"
    using k st p0 len unfolding started_def by simp
  have N: "0 < nGPUs ?st" using st t' unfolding started_def by simp
  have lst: "list ?st = ys" if "reduce_tasks ?st = 0"
    using st that N ys(1) unfolding started_def by auto
  have buf: "list ?st = buffer_of ?c ?A" if "reduce_tasks ?st = nGPUs ?st"
    using st that unfolding started_def by simp
  have y0: "ys ! (k * 2) = column_sum s0 0" and y1: "ys ! (k * 2 + 1) = column_sum s0 1"
    using ys(4) [rule_format, OF kn, of 0] ys(4) [rule_format, OF kn, of 1] by simp_all
  have i0: "2 * int k = int (k * 2)" and i1: "2 * int k + 1 = int (k * 2 + 1)" by simp_all
  have g0: "getitem ys (2 * int k) = Inr (column_sum s0 0)"
    unfolding i0 using getitem_nth [of "k * 2" ys] ys(2) kn y0 by simp
  have g1: "getitem ys (2 * int k + 1) = Inr (column_sum s0 1)"
    unfolding i1 using getitem_nth [of "k * 2 + 1" ys] ys(2) kn y1 by simp
  show ?thesis
  proof (cases "pc (threads s ! t)")
    case (Returned x y)
    then show ?thesis using ok lst g0 g1 by simp
  next
    case (Raised e)
    then show ?thesis using ok lst g0 g1 buf ys(1,3) N
      by (cases e) auto
  qed (use i ok in simp_all)
qed

lemma ex_column_sums: "column_sum ex_start 0 = 30" "column_sum ex_start 1 = 20"
  by (simp_all add: column_sum_def ex_calls contrib_def ex_start_def start_def upt_rec calls_of_def)

lemma ex3_run_9:
  "map pc (threads (run allreduce_sum [0, 1, 2, 0, 1, 2, 0, 1, 2] ex3_start))
     = [Raised AssertionError, Raised AssertionError, Raised AssertionError]"
  by code_simp

lemma push_after_round:
  assumes "push_tasks st = 0"
  shows "push inputs st = push inputs (SharedTensor_init (nGPUs st))"
proof (cases "nGPUs st = 0")
  case True
  then show ?thesis using assms
    by (cases st) (simp add: push_def clear_def SharedTensor_init_def)
next
  case False
  then show ?thesis using assms
    by (cases st) (simp add: push_def clear_def SharedTensor_init_def)
qed

lemma push_first:
  assumes "push_tasks st = 0"
  shows "push [xs] st
    = (Inr 0, \<lparr>nGPUs = nGPUs st, list = xs, push_tasks = nGPUs st - 1, reduce_tasks = nGPUs st\<rparr>)"
  using assms by (cases st) (simp add: push_def clear_def)

lemma step_reset:
  assumes q: "quiescent s" and p: "push_tasks (sharedT s) = 0" and t: "t < length (threads s)"
  shows "step ar t (reset s) = step ar t s"
proof -
  have i: "idle (pc (threads s ! t))" and n: "nGPUs (sharedT s) \<noteq> 0"
    using q t nth_mem [OF t] unfolding quiescent_def by auto
  have eq: "step ar t s = begin_call t s" using t i by (rule step_idle)
  have eq': "step ar t (reset s) = begin_call t (reset s)"
    using t i step_idle [of t "reset s" ar] by (simp add: reset_def)
  have pr: "push_tasks (sharedT (reset s)) \<noteq> 0"
    using n by (simp add: reset_def SharedTensor_init_def clear_def)
  have pu: "push inputs (sharedT (reset s)) = push inputs (sharedT s)" for inputs
    using push_after_round [OF p, of inputs] by (simp add: reset_def)
  have td: "todo (threads s ! t) = [hd (todo (threads s ! t))]"
    using q nth_mem [OF t] todo_single unfolding quiescent_def by blast
  show ?thesis
    unfolding eq eq' using p pr pu td
    by (auto simp: begin_call_def reset_def split: list.splits sum.splits prod.splits)
qed

lemma step_out_of_range: "\<not> t < length (threads s) \<Longrightarrow> step ar t s = s"
  by (simp add: step_def)

lemma run_reset:
  assumes q: "quiescent s" and p: "push_tasks (sharedT s) = 0"
    and e: "\<exists>t\<in>set sched. t < length (threads s)"
  shows "run ar sched (reset s) = run ar sched s"
  using e
proof (induction sched)
  case Nil
  then show ?case by simp
next
  case (Cons t sched)
  show ?case
  proof (cases "t < length (threads s)")
    case True
    then show ?thesis using step_reset [OF q p True, of ar] by (simp add: run_Cons)
  next
    case False
    then have "\<exists>t\<in>set sched. t < length (threads s)" using Cons.prems by auto
    moreover have "step ar t (reset s) = reset s"
      using False by (intro step_out_of_range) (simp add: reset_def)
    ultimately show ?thesis
      using Cons.IH False by (simp add: run_Cons step_out_of_range)
  qed
qed

lemma round_over:
  assumes q: "quiescent s0" and s: "s = run ar sched s0"
    and t: "t < length (threads s0)" and r: "pc (threads s ! t) = Returned x y"
    and td: "todo (threads s ! t) = []"
  shows "push_tasks (sharedT s) = 0 \<and> reduce_tasks (sharedT s) = 0"
proof -
  let ?c = "calls_of s0"
  have t': "t < length (threads s)" using t by (simp add: s)
  have inv: "round_inv ar ?c (invocations s0) s" unfolding s by (rule quiescent_run [OF q])
  have st: "started ar ?c (invocations s0) s" using begun_started [OF inv t' td] .
  have tok: "thread_ok ar ?c (sharedT s) (arrived s) t (threads s ! t)"
    using st t' by (rule started_thread_ok)
  then show ?thesis
    using r td unfolding thread_ok_def by (auto simp: in_set_conv_nth split: if_splits)
qed

lemma quiescent_resume:
  assumes "push_tasks (sharedT s) = 0" "int (length (threads s)) = nGPUs (sharedT s)"
    "\<forall>th\<in>set (threads s). idle (pc th)" "length cs = length (threads s)"
  shows "quiescent (resume cs s)"
  using assms unfolding quiescent_def resume_def
  by (auto simp: set_zip)

lemma ex_round2_run:
  "run allreduce_sum ex_sched ex_round2 =
     \<lparr>sharedT = \<lparr>nGPUs = 2, list = [4, 6, 4, 6], push_tasks = 0, reduce_tasks = 0\<rparr>,
      threads = [\<lparr>pc = Returned 4 6, todo = []\<rparr>, \<lparr>pc = Returned 4 6, todo = []\<rparr>],
      arrived = [0, 1], issued = [0, 1],
      invocations = [(0, 2, [10, 4, 20, 16]), (0, 2, [1, 2, 3, 4])]\<rparr>"
  by code_simp

lemma ex_round2_eq:
  "ex_round2 =
     \<lparr>sharedT = \<lparr>nGPUs = 2, list = [30, 20, 30, 20], push_tasks = 0, reduce_tasks = 0\<rparr>,
      threads = [\<lparr>pc = Returned 30 20, todo = [[[1, 2]]]\<rparr>, \<lparr>pc = Returned 30 20, todo = [[[3, 4]]]\<rparr>],
      arrived = [0, 1], issued = [0, 1], invocations = [(0, 2, [10, 4, 20, 16])]\<rparr>"
  unfolding ex_round2_def ex_run by (simp add: resume_def)







lemma wake_idle_thread: "idle (pc th) \<Longrightarrow> th\<lparr>pc := wake (pc th)\<rparr> = th"
  by simp






















lemma ex_submit_again:
  "submit_again 0 [[1, 2]] (run allreduce_sum [1, 0, 0, 1, 0, 1, 0, 1, 0, 0] ex_start)
     = run allreduce_sum [1, 0, 0, 1, 0, 1, 0, 1, 0, 0] ex_two_calls"
  by code_simp




section \<open>The reducer runs once in a round\<close>





section \<open>What the callers of a round receive\<close>

text \<open>
  C2, as amended to the arity the code supports. In a round of \<open>nGPUs\<close> callers that each
  submit one iterable of two values, with a reducer that sums the groups elementwise and
  replicates the sums into every group: after any interleaving, a caller whose call is
  over has returned the pair of the sums of all first values and of all second values,
  and every interleaving can be continued until all callers have returned that pair. For
  contributions \<open>[10, 4]\<close> and \<open>[20, 16]\<close> both callers return \<open>(30, 20)\<close>. With contributions
  of another arity the round does not return: three callers submitting \<open>[5]\<close>, \<open>[7]\<close>,
  \<open>[9]\<close> all raise \<^verbatim>\<open>AssertionError\<close>.
\<close>

theorem collect_returns_sums:
  assumes "wellformed_round s0" and "sums_groups allreduce"
  shows "(\<forall>t<length (threads s0).
            todo (threads (run allreduce sched s0) ! t) = []
            \<and> idle (pc (threads (run allreduce sched s0) ! t)) \<longrightarrow>
            pc (threads (run allreduce sched s0) ! t)
              = Returned (column_sum s0 0) (column_sum s0 1))
     \<and> (\<exists>more. \<forall>t<length (threads s0).
            pc (threads (run allreduce (sched @ more) s0) ! t)
              = Returned (column_sum s0 0) (column_sum s0 1))"
proof
  show "\<forall>t<length (threads s0).
            todo (threads (run allreduce sched s0) ! t) = []
            \<and> idle (pc (threads (run allreduce sched s0) ! t)) \<longrightarrow>
            pc (threads (run allreduce sched s0) ! t)
              = Returned (column_sum s0 0) (column_sum s0 1)"
    using wellformed_outcome [OF assms refl] by blast
  have q: "quiescent s0" using assms(1) by (simp add: wellformed_round_def)
  obtain more where m: "\<forall>t<length (threads s0).
      finished (threads (run allreduce (sched @ more) s0) ! t)"
    using round_completes [OF q wellformed_no_type_error [OF assms(1)]] by blast
  have "pc (threads (run allreduce (sched @ more) s0) ! t)
      = Returned (column_sum s0 0) (column_sum s0 1)" if "t < length (threads s0)" for t
    using wellformed_outcome [OF assms refl that, of "sched @ more"] m that
    by (simp add: finished_def)
  then show "\<exists>more. \<forall>t<length (threads s0).
            pc (threads (run allreduce (sched @ more) s0) ! t)
              = Returned (column_sum s0 0) (column_sum s0 1)"
    by blast
qed

theorem collect_returns_sums_witness:
  "wellformed_round ex_start \<and> sums_groups (allreduce_sum :: nat \<Rightarrow> int list \<Rightarrow> int list option)
   \<and> calls_of ex_start 0 = [[10, 4]] \<and> calls_of ex_start 1 = [[20, 16]]
   \<and> pc (threads (run allreduce_sum ex_sched ex_start) ! 0) = Returned 30 20
   \<and> pc (threads (run allreduce_sum ex_sched ex_start) ! 1) = Returned 30 20"
proof -
  let ?s = "run allreduce_sum ex_sched ex_start"
  note T = collect_returns_sums [OF ex_wellformed sums_groups_allreduce_sum, of ex_sched,
      THEN conjunct1, rule_format]
  have l: "0 < length (threads ex_start)" "1 < length (threads ex_start)"
    by (simp_all add: ex_start_def start_def)
  have f: "todo (threads ?s ! 0) = [] \<and> idle (pc (threads ?s ! 0))"
    "todo (threads ?s ! 1) = [] \<and> idle (pc (threads ?s ! 1))"
    unfolding ex_run by simp_all
  have "pc (threads ?s ! 0) = Returned 30 20"
    using T [OF l(1) f(1)] unfolding ex_column_sums .
  moreover have "pc (threads ?s ! 1) = Returned 30 20"
    using T [OF l(2) f(2)] unfolding ex_column_sums .
  ultimately show ?thesis
    using ex_wellformed sums_groups_allreduce_sum ex_calls by blast
qed

theorem collect_any_arity_counterexample:
  "calls_of ex3_start 0 = [[5]] \<and> calls_of ex3_start 1 = [[7]] \<and> calls_of ex3_start 2 = [[9]]
   \<and> nGPUs (sharedT ex3_start) = 3
   \<and> allreduce_sum 1 [5, 7, 9 :: int] = Some [21, 21, 21]
   \<and> map pc (threads (run allreduce_sum [0, 1, 2, 0, 1, 2, 0, 1, 2] ex3_start))
       = [Raised AssertionError, Raised AssertionError, Raised AssertionError]"
proof -
  have "calls_of ex3_start 0 = [[5]] \<and> calls_of ex3_start 1 = [[7]] \<and> calls_of ex3_start 2 = [[9]]"
    by (simp add: calls_of_def ex3_start_def start_def)
  moreover have "nGPUs (sharedT ex3_start) = 3"
    by (simp add: ex3_start_def start_def SharedTensor_init_def clear_def)
  moreover have "allreduce_sum 1 [5, 7, 9 :: int] = Some [21, 21, 21]"
    by code_simp
  ultimately show ?thesis using ex3_run_9 by blast
qed

section \<open>Slot tokens follow the order of arrival\<close>

text \<open>
  C3. In a round of \<open>nGPUs\<close> callers, for every interleaving, once a caller has arrived:
  the tokens issued so far are \<open>0, 1, \<dots>\<close> in the order of arrival, so the \<open>k\<close>-th
  arrival received \<open>k\<close> and holds it for the rest of its call; when all have arrived the
  tokens issued are the numbers of \<open>[0, nGPUs)\<close>, none twice; while no reduction has run
  and every contribution has length \<open>a\<close>, the contribution of the \<open>k\<close>-th arrival is the
  slice \<open>[k * a, k * a + a)\<close> of the list. The push computes the token as \<open>nGPUs\<close> minus
  the value of \<open>push_tasks\<close> before its decrement (after the reset, if there is one).
\<close>

theorem slot_tokens_follow_arrival_order:
  assumes q: "quiescent s0" and s: "s = run allreduce sched s0"
    and begun: "\<exists>t<length (threads s). todo (threads s ! t) = []"
  shows "issued s = map int [0..<length (arrived s)]
     \<and> distinct (arrived s) \<and> (\<forall>u\<in>set (arrived s). u < length (threads s))
     \<and> int (length (arrived s)) = nGPUs (sharedT s) - push_tasks (sharedT s)
     \<and> (push_tasks (sharedT s) = 0 \<longrightarrow>
          distinct (issued s) \<and> set (issued s) = {0..<nGPUs (sharedT s)})
     \<and> (\<forall>k<length (arrived s). \<forall>i.
          token (pc (threads s ! (arrived s ! k))) = Some i \<longrightarrow> i = int k)
     \<and> (\<forall>a. (\<forall>t<length (threads s). length (contrib (calls_of s0 t)) = a)
              \<and> reduce_tasks (sharedT s) = nGPUs (sharedT s) \<longrightarrow>
          (\<forall>k<length (arrived s).
             take a (drop (k * a) (list (sharedT s))) = contrib (calls_of s0 (arrived s ! k))))
     \<and> (\<forall>inputs st idx st'. push inputs st = (Inr idx, st') \<longrightarrow>
          idx = nGPUs st - (if push_tasks st = 0 then nGPUs st else push_tasks st)
          \<and> push_tasks st' = (if push_tasks st = 0 then nGPUs st else push_tasks st) - 1)"
proof -
  let ?c = "calls_of s0" and ?i = "invocations s0"
  have inv: "round_inv allreduce ?c ?i s"
    unfolding s by (rule quiescent_run [OF q])
  have st: "started allreduce ?c ?i s"
    using begun begun_started [OF inv] by blast
  have nd: "\<not> drained ?c ?i s"
    using begun by (auto simp: drained_def)
  have "tokens_inv ?c ?i s"
    unfolding s by (rule tokens_inv_run [OF quiescent_round_inv [OF q] quiescent_tokens_inv [OF q]])
  then have iss: "issued s = map int [0..<length (arrived s)]"
    using nd by (simp add: tokens_inv_def)
  have dist: "distinct (arrived s)" and bnd: "\<forall>u\<in>set (arrived s). u < length (threads s)"
    and len: "int (length (arrived s)) = nGPUs (sharedT s) - push_tasks (sharedT s)"
    and buf: "reduce_tasks (sharedT s) = nGPUs (sharedT s) \<Longrightarrow>
              list (sharedT s) = buffer_of ?c (arrived s)"
    using st unfolding started_def by simp_all
  have perm: "distinct (issued s) \<and> set (issued s) = {0..<nGPUs (sharedT s)}"
    if "push_tasks (sharedT s) = 0"
  proof -
    have "int (length (arrived s)) = nGPUs (sharedT s)" using len that by simp
    moreover have "set (map int [0..<length (arrived s)]) = {0..<int (length (arrived s))}"
      using image_int_atLeastLessThan [of 0 "length (arrived s)"] by simp
    moreover have "distinct (map int [0..<length (arrived s)])"
      by (simp add: distinct_map)
    ultimately show ?thesis unfolding iss by simp
  qed
  have tok: "i = int k"
    if k: "k < length (arrived s)" and i: "token (pc (threads s ! (arrived s ! k))) = Some i"
    for k i
  proof -
    let ?u = "arrived s ! k"
    have u: "?u < length (threads s)" and m: "?u \<in> set (arrived s)" using bnd k by simp_all
    have "thread_ok allreduce ?c (sharedT s) (arrived s) ?u (threads s ! ?u)"
      using st u by (rule started_thread_ok)
    then have "pc_ok allreduce (sharedT s) (int k) (pc (threads s ! ?u))"
      using m k unfolding thread_ok_def by simp
    then show ?thesis using i by (rule pc_ok_token)
  qed
  have pos: "take a (drop (k * a) (list (sharedT s))) = contrib (?c (arrived s ! k))"
    if a: "\<forall>t<length (threads s). length (contrib (?c t)) = a"
      and r: "reduce_tasks (sharedT s) = nGPUs (sharedT s)" and k: "k < length (arrived s)"
    for a k
  proof -
    have "\<forall>u\<in>set (arrived s). length (contrib (?c u)) = a" using a bnd by simp
    then show ?thesis unfolding buf [OF r] using k by (rule buffer_block)
  qed
  show ?thesis
    using iss dist bnd len perm tok pos push_idx by blast
qed

theorem slot_tokens_follow_arrival_order_witness:
  "quiescent ex_start
   \<and> todo (threads (run allreduce_sum [0, 1] ex_start) ! 0) = []
   \<and> issued (run allreduce_sum [0, 1] ex_start) = [0, 1]
   \<and> set (issued (run allreduce_sum [0, 1] ex_start)) = {0..<2}
   \<and> token (pc (threads (run allreduce_sum [0, 1] ex_start) ! 1)) = Some 1
   \<and> take 2 (drop 2 (list (sharedT (run allreduce_sum [0, 1] ex_start)))) = [20, 16]"
proof -
  let ?s = "run allreduce_sum [0, 1] ex_start"
  have t0: "todo (threads ?s ! 0) = []"
    unfolding ex_run_2 by simp
  have b: "\<exists>t<length (threads ?s). todo (threads ?s ! t) = []"
    unfolding ex_run_2 by (intro exI [of _ 0]) simp
  note T = slot_tokens_follow_arrival_order [OF ex_quiescent refl b]
  have len: "length (arrived ?s) = 2" and p: "push_tasks (sharedT ?s) = 0"
    and n: "nGPUs (sharedT ?s) = 2" and r: "reduce_tasks (sharedT ?s) = nGPUs (sharedT ?s)"
    and a1: "arrived ?s ! 1 = 1" and lt: "length (threads ?s) = 2"
    unfolding ex_run_2 by simp_all
  have 1: "issued ?s = [0, 1]"
    using T [THEN conjunct1] unfolding len by (simp add: upt_rec)
  have 2: "set (issued ?s) = {0..<2}"
    using T [THEN conjunct2, THEN conjunct2, THEN conjunct2, THEN conjunct2, THEN conjunct1]
      p n by simp
  have 3: "token (pc (threads ?s ! 1)) = Some 1"
    unfolding ex_run_2 by simp
  have c: "\<forall>t<length (threads ?s). length (contrib (calls_of ex_start t)) = 2"
    unfolding lt using ex_calls by (auto simp: less_Suc_eq numeral_2_eq_2 contrib_def)
  have "take 2 (drop (1 * 2) (list (sharedT ?s))) = contrib (calls_of ex_start (arrived ?s ! 1))"
    using T [THEN conjunct2, THEN conjunct2, THEN conjunct2, THEN conjunct2, THEN conjunct2,
      THEN conjunct2, THEN conjunct1, rule_format, OF conjI [OF c r], of 1] len
    by simp
  then have 4: "take 2 (drop 2 (list (sharedT ?s))) = [20, 16]"
    unfolding a1 using ex_calls by (simp add: contrib_def)
  show ?thesis
    using ex_quiescent t0 1 2 3 4 by blast
qed

section \<open>The next round starts from the reset state\<close>

text \<open>
  C4. When all callers of a round have returned, \<open>push_tasks\<close> is zero and the callers can
  start the next round (\<open>resume\<close> gives each thread its next call). A push that finds
  \<open>push_tasks = 0\<close> behaves as on the tensor the constructor builds: the list becomes the
  caller's own values, \<open>push_tasks\<close> becomes \<open>nGPUs - 1\<close> and \<open>reduce_tasks\<close> becomes
  \<open>nGPUs\<close>. Hence, from the first step of the new round on, the whole system is the one
  that the same interleaving produces from the reset state: neither the list nor the
  counters nor the results of the new round depend on what the previous round left.
\<close>

theorem next_round_starts_reset:
  "(quiescent s0 \<and> 0 < length (threads s0) \<and> length cs = length (threads s0)
      \<and> (\<forall>t<length (threads s0). \<exists>x y.
            pc (threads (run allreduce sched s0) ! t) = Returned x y
            \<and> todo (threads (run allreduce sched s0) ! t) = []) \<longrightarrow>
        push_tasks (sharedT (run allreduce sched s0)) = 0
        \<and> quiescent (resume cs (run allreduce sched s0)))
   \<and> (push_tasks st = 0 \<longrightarrow>
        push [xs] st
          = (Inr 0, \<lparr>nGPUs = nGPUs st, list = xs, push_tasks = nGPUs st - 1,
                      reduce_tasks = nGPUs st\<rparr>)
        \<and> (\<forall>inputs. push inputs st = push inputs (SharedTensor_init (nGPUs st))))
   \<and> (quiescent s1 \<and> push_tasks (sharedT s1) = 0
      \<and> (\<exists>t\<in>set sched'. t < length (threads s1)) \<longrightarrow>
        run allreduce sched' s1 = run allreduce sched' (reset s1))"
proof (intro conjI impI)
  let ?s = "run allreduce sched s0"
  assume h: "quiescent s0 \<and> 0 < length (threads s0) \<and> length cs = length (threads s0)
      \<and> (\<forall>t<length (threads s0). \<exists>x y.
            pc (threads ?s ! t) = Returned x y \<and> todo (threads ?s ! t) = [])"
  then have q: "quiescent s0" and pos: "0 < length (threads s0)"
    and all: "\<And>t. t < length (threads s0) \<Longrightarrow>
        \<exists>x y. pc (threads ?s ! t) = Returned x y \<and> todo (threads ?s ! t) = []"
    by simp_all
  obtain x y where xy: "pc (threads ?s ! 0) = Returned x y" "todo (threads ?s ! 0) = []"
    using all [OF pos] by auto
  have "push_tasks (sharedT ?s) = 0 \<and> reduce_tasks (sharedT ?s) = 0"
    by (rule round_over [OF q refl pos xy])
  then show p: "push_tasks (sharedT ?s) = 0" by simp
  have "idle (pc th)" if "th \<in> set (threads ?s)" for th
  proof -
    from that obtain u where u: "u < length (threads ?s)" "threads ?s ! u = th"
      unfolding in_set_conv_nth by blast
    from u(1) have "u < length (threads s0)" by simp
    then show ?thesis using all [of u] u(2) by auto
  qed
  moreover have "int (length (threads ?s)) = nGPUs (sharedT ?s)"
    using h by (simp add: quiescent_def)
  ultimately show "quiescent (resume cs ?s)"
    using p h by (intro quiescent_resume) simp_all
next
  assume p: "push_tasks st = 0"
  show "push [xs] st
          = (Inr 0, \<lparr>nGPUs = nGPUs st, list = xs, push_tasks = nGPUs st - 1,
                      reduce_tasks = nGPUs st\<rparr>)"
    using p by (rule push_first)
  show "\<forall>inputs. push inputs st = push inputs (SharedTensor_init (nGPUs st))"
  proof
    fix inputs
    show "push inputs st = push inputs (SharedTensor_init (nGPUs st))"
      using p by (rule push_after_round)
  qed
next
  assume "quiescent s1 \<and> push_tasks (sharedT s1) = 0
      \<and> (\<exists>t\<in>set sched'. t < length (threads s1))"
  then have "run allreduce sched' (reset s1) = run allreduce sched' s1"
    by (intro run_reset) simp_all
  then show "run allreduce sched' s1 = run allreduce sched' (reset s1)"
    by (rule sym)
qed

theorem next_round_starts_reset_witness:
  "quiescent ex_start
   \<and> pc (threads (run allreduce_sum ex_sched ex_start) ! 1) = Returned 30 20
   \<and> list (sharedT (run allreduce_sum ex_sched ex_start)) = [30, 20, 30, 20]
   \<and> quiescent ex_round2 \<and> push_tasks (sharedT ex_round2) = 0
   \<and> run allreduce_sum ex_sched ex_round2 = run allreduce_sum ex_sched (reset ex_round2)
   \<and> list (sharedT (run allreduce_sum ex_sched (reset ex_round2))) = [4, 6, 4, 6]
   \<and> pc (threads (run allreduce_sum ex_sched (reset ex_round2)) ! 1) = Returned 4 6
   \<and> snd (push [[1, 2]] (sharedT ex_round2))
       = \<lparr>nGPUs = 2, list = [1, 2], push_tasks = 1, reduce_tasks = 2\<rparr>"
proof -
  let ?s = "run allreduce_sum ex_sched ex_start"
  note T = next_round_starts_reset
  have h: "quiescent ex_start \<and> 0 < length (threads ex_start)
      \<and> length [[[1, 2]], [[3, 4 :: int]]] = length (threads ex_start)
      \<and> (\<forall>t<length (threads ex_start). \<exists>x y.
            pc (threads ?s ! t) = Returned x y \<and> todo (threads ?s ! t) = [])"
    using ex_quiescent unfolding ex_run
    by (auto simp: ex_start_def start_def less_Suc_eq numeral_2_eq_2)
  have 1: "push_tasks (sharedT ?s) = 0 \<and> quiescent ex_round2"
    unfolding ex_round2_def
    by (rule T [of ex_start "[[[1, 2]], [[3, 4]]]" allreduce_sum ex_sched, THEN conjunct1,
          rule_format, OF h])
  have q2: "quiescent ex_round2" using 1 by (rule conjunct2)
  have p2: "push_tasks (sharedT ex_round2) = 0" unfolding ex_round2_eq by simp
  have "0 \<in> set ex_sched" "0 < length (threads ex_round2)"
    unfolding ex_round2_eq ex_sched_def by simp_all
  then have e: "\<exists>t\<in>set ex_sched. t < length (threads ex_round2)" by (rule bexI [rotated])
  have pre: "quiescent ex_round2 \<and> push_tasks (sharedT ex_round2) = 0
      \<and> (\<exists>t\<in>set ex_sched. t < length (threads ex_round2))"
    using q2 p2 e by (intro conjI)
  have 2: "run allreduce_sum ex_sched ex_round2 = run allreduce_sum ex_sched (reset ex_round2)"
    by (rule T [of _ _ allreduce_sum _ _ _ ex_round2 ex_sched, THEN conjunct2, THEN conjunct2,
          rule_format, OF pre])
  have "push [[1, 2]] (sharedT ex_round2)
      = (Inr 0, \<lparr>nGPUs = nGPUs (sharedT ex_round2), list = [1, 2],
                  push_tasks = nGPUs (sharedT ex_round2) - 1,
                  reduce_tasks = nGPUs (sharedT ex_round2)\<rparr>)"
    using T [of _ _ allreduce_sum _ "sharedT ex_round2" "[1, 2]", THEN conjunct2, THEN conjunct1,
        rule_format, OF p2]
    by (rule conjunct1)
  then have 3: "snd (push [[1, 2]] (sharedT ex_round2))
       = \<lparr>nGPUs = 2, list = [1, 2], push_tasks = 1, reduce_tasks = 2\<rparr>"
    by (simp add: ex_round2_eq)
  have r2: "run allreduce_sum ex_sched (reset ex_round2) = run allreduce_sum ex_sched ex_round2"
    using 2 by (rule sym)
  have 4: "list (sharedT (run allreduce_sum ex_sched (reset ex_round2))) = [4, 6, 4, 6]"
    "pc (threads (run allreduce_sum ex_sched (reset ex_round2)) ! 1) = Returned 4 6"
    unfolding r2 ex_round2_run by simp_all
  have 5: "pc (threads ?s ! 1) = Returned 30 20" "list (sharedT ?s) = [30, 20, 30, 20]"
    unfolding ex_run by simp_all
  show ?thesis
    using ex_quiescent 5 q2 p2 2 4 3 by (intro conjI)
qed

section \<open>The length of the buffer in the push phase\<close>

text \<open>
  C5. Wherever the lock is free, the list holds \<open>a * (nGPUs - push_tasks)\<close> values, when every
  call contributes \<open>a\<close> values and \<^verbatim>\<open>allreduce\<close> returns as many values as it is given:
  every step of every thread keeps this (first conjunct), so it holds after every
  interleaving from the state the constructor leaves, for any number of threads and calls
  (second conjunct). The state between rounds is covered by the same equation: the fresh
  list is empty with \<open>push_tasks = nGPUs\<close>. In a round of \<open>nGPUs\<close> callers, until the
  reduction has run, the list is the contributions of the \<open>nGPUs - push_tasks\<close> callers
  that have arrived, in the order of their arrival (third conjunct).
\<close>

theorem buffer_holds_arrived_contributions:
  "(buffer_inv a s \<and> arity_ok a s \<and> keeps_length (nGPUs (sharedT s)) allreduce \<longrightarrow>
      buffer_inv a (step allreduce t s) \<and> arity_ok a (step allreduce t s))
   \<and> (arity_ok a (start n calls) \<and> keeps_length n allreduce \<longrightarrow>
      buffer_inv a (run allreduce sched (start n calls)))
   \<and> (quiescent s0
       \<and> (\<exists>t<length (threads (run allreduce sched s0)).
             todo (threads (run allreduce sched s0) ! t) = [])
       \<and> reduce_tasks (sharedT (run allreduce sched s0)) = nGPUs (sharedT (run allreduce sched s0))
      \<longrightarrow>
        list (sharedT (run allreduce sched s0))
          = buffer_of (calls_of s0) (arrived (run allreduce sched s0))
        \<and> distinct (arrived (run allreduce sched s0))
        \<and> int (length (arrived (run allreduce sched s0)))
            = nGPUs (sharedT (run allreduce sched s0)) - push_tasks (sharedT (run allreduce sched s0)))"
proof (intro conjI impI)
  assume "buffer_inv a s \<and> arity_ok a s \<and> keeps_length (nGPUs (sharedT s)) allreduce"
  then have "buffer_inv a (step allreduce t s) \<and> arity_ok a (step allreduce t s)"
    using buffer_inv_step by blast
  then show "buffer_inv a (step allreduce t s)" "arity_ok a (step allreduce t s)" by simp_all
next
  assume h: "arity_ok a (start n calls) \<and> keeps_length n allreduce"
  have "nGPUs (sharedT (start n calls)) = n"
    by (simp add: start_def SharedTensor_init_def clear_def)
  then show "buffer_inv a (run allreduce sched (start n calls))"
    using buffer_inv_run [of a "start n calls" allreduce sched] h buffer_inv_start [of a n calls]
    by simp
next
  let ?s = "run allreduce sched s0"
  assume h: "quiescent s0 \<and> (\<exists>t<length (threads ?s). todo (threads ?s ! t) = [])
       \<and> reduce_tasks (sharedT ?s) = nGPUs (sharedT ?s)"
  have inv: "round_inv allreduce (calls_of s0) (invocations s0) ?s"
    using h by (intro quiescent_run) simp
  have st: "started allreduce (calls_of s0) (invocations s0) ?s"
    using h begun_started [OF inv] by blast
  show "list (sharedT ?s) = buffer_of (calls_of s0) (arrived ?s)"
    "distinct (arrived ?s)"
    "int (length (arrived ?s)) = nGPUs (sharedT ?s) - push_tasks (sharedT ?s)"
    using st h unfolding started_def by simp_all
qed

theorem buffer_holds_arrived_contributions_witness:
  "arity_ok 2 (start 2 [[[[10, 4]]], [[[20, 16::int]]]]) \<and> keeps_length 2 (allreduce_sum :: nat \<Rightarrow> int list \<Rightarrow> int list option)
   \<and> buffer_inv 2 (run allreduce_sum [0] (start 2 [[[[10, 4]]], [[[20, 16::int]]]]))
   \<and> buffer_inv 2 (step allreduce_sum 1 (run allreduce_sum [0] (start 2 [[[[10, 4]]], [[[20, 16::int]]]])))
   \<and> quiescent ex_start
   \<and> list (sharedT (run allreduce_sum [0, 1] ex_start)) = [10, 4, 20, 16]
   \<and> length (arrived (run allreduce_sum [0, 1] ex_start)) = 2"
proof -
  let ?init = "start 2 [[[[10, 4]]], [[[20, 16::int]]]]"
  let ?s = "run allreduce_sum [0, 1] ex_start"
  note T = buffer_holds_arrived_contributions
  have a: "arity_ok 2 ?init" using ex_arity_ok by (simp add: ex_start_def)
  have k: "keeps_length 2 (allreduce_sum :: nat \<Rightarrow> int list \<Rightarrow> int list option)"
    by (rule keeps_length_allreduce_sum) simp
  have 1: "buffer_inv 2 (run allreduce_sum [0] ?init)"
    using T [of 2 ?init allreduce_sum 0 2 "[[[[10, 4]]], [[[20, 16]]]]" "[0]", THEN conjunct2, THEN conjunct1]
      a k by blast
  have n: "nGPUs (sharedT (run allreduce_sum [0] ?init)) = 2"
    by (simp add: start_def SharedTensor_init_def clear_def)
  have k1: "keeps_length (nGPUs (sharedT (run allreduce_sum [0] ?init)))
      (allreduce_sum :: nat \<Rightarrow> int list \<Rightarrow> int list option)"
    unfolding n by (rule k)
  have n0: "nGPUs (sharedT ?init) = 2"
    by (simp add: start_def SharedTensor_init_def clear_def)
  have k0: "keeps_length (nGPUs (sharedT ?init)) (allreduce_sum :: nat \<Rightarrow> int list \<Rightarrow> int list option)"
    unfolding n0 by (rule k)
  have a1: "arity_ok 2 (run allreduce_sum [0] ?init)"
    using buffer_inv_run [OF buffer_inv_start a k0, of "[0]"] by (rule conjunct2)
  have 2: "buffer_inv 2 (step allreduce_sum 1 (run allreduce_sum [0] ?init))"
    using T [of 2 "run allreduce_sum [0] ?init" allreduce_sum 1, THEN conjunct1] 1 a1 k1
    by blast
  have b: "\<exists>t<length (threads ?s). todo (threads ?s ! t) = []"
    unfolding ex_run_2 by (intro exI [of _ 0]) simp
  have r: "reduce_tasks (sharedT ?s) = nGPUs (sharedT ?s)"
    unfolding ex_run_2 by simp
  have 3: "list (sharedT ?s) = buffer_of (calls_of ex_start) (arrived ?s)
      \<and> distinct (arrived ?s)
      \<and> int (length (arrived ?s)) = nGPUs (sharedT ?s) - push_tasks (sharedT ?s)"
    using T [of _ _ allreduce_sum _ _ _ "[0, 1]" ex_start, THEN conjunct2, THEN conjunct2]
      ex_quiescent b r by blast
  have 4: "list (sharedT ?s) = [10, 4, 20, 16]" "length (arrived ?s) = 2"
    unfolding ex_run_2 by simp_all
  show ?thesis using a k 1 2 3 4 ex_quiescent by blast
qed

section \<open>The assertion at the reduction\<close>

text \<open>
  C6. A caller that reaches the pull and finds \<open>reduce_tasks = nGPUs\<close> while the list does
  not hold \<open>2 * nGPUs\<close> values raises \<^verbatim>\<open>AssertionError\<close>: the shared tensor is left as it
  was and \<^verbatim>\<open>allreduce\<close> is not called. When the list holds \<open>2 * nGPUs\<close> values the pull
  does not raise \<^verbatim>\<open>AssertionError\<close>. In a round of \<open>nGPUs\<close> callers that each submit one
  iterable of two values, no caller raises \<^verbatim>\<open>AssertionError\<close>, whatever the interleaving.
  (The check is an \<^verbatim>\<open>assert\<close> statement, taken as executed.)
\<close>

theorem assertion_guards_reduction:
  "(t < length (threads s) \<and> pc (threads s ! t) = Pull i
      \<and> reduce_tasks (sharedT s) = nGPUs (sharedT s)
      \<and> int (length (list (sharedT s))) \<noteq> 2 * nGPUs (sharedT s) \<longrightarrow>
        pc (threads (step allreduce t s) ! t) = Raised AssertionError
        \<and> sharedT (step allreduce t s) = sharedT s
        \<and> invocations (step allreduce t s) = invocations s)
   \<and> (t < length (threads s) \<and> pc (threads s ! t) = Pull i
      \<and> int (length (list (sharedT s))) = 2 * nGPUs (sharedT s) \<longrightarrow>
        pc (threads (step allreduce t s) ! t) \<noteq> Raised AssertionError)
   \<and> (wellformed_round s0 \<longrightarrow>
        (\<forall>u<length (threads s0).
           \<not> (pc (threads (run allreduce sched s0) ! u) = Raised AssertionError
              \<and> todo (threads (run allreduce sched s0) ! u) = [])))"
proof (intro conjI impI allI)
  assume h: "t < length (threads s) \<and> pc (threads s ! t) = Pull i
      \<and> reduce_tasks (sharedT s) = nGPUs (sharedT s)
      \<and> int (length (list (sharedT s))) \<noteq> 2 * nGPUs (sharedT s)"
  then have eq: "step allreduce t s = set_pc t (Raised AssertionError) s"
    using step_pull_assert by blast
  show "pc (threads (step allreduce t s) ! t) = Raised AssertionError"
    "sharedT (step allreduce t s) = sharedT s"
    "invocations (step allreduce t s) = invocations s"
    unfolding eq using h by simp_all
next
  assume "t < length (threads s) \<and> pc (threads s ! t) = Pull i
      \<and> int (length (list (sharedT s))) = 2 * nGPUs (sharedT s)"
  then show "pc (threads (step allreduce t s) ! t) \<noteq> Raised AssertionError"
    using step_pull_no_assert by blast
next
  fix u
  let ?s = "run allreduce sched s0"
  let ?c = "calls_of s0"
  assume w: "wellformed_round s0" and u: "u < length (threads s0)"
  have q: "quiescent s0" using w by (simp add: wellformed_round_def)
  have inv: "round_inv allreduce ?c (invocations s0) ?s"
    by (rule quiescent_run [OF q])
  show "\<not> (pc (threads ?s ! u) = Raised AssertionError \<and> todo (threads ?s ! u) = [])"
  proof
    assume r: "pc (threads ?s ! u) = Raised AssertionError \<and> todo (threads ?s ! u) = []"
    have u': "u < length (threads ?s)" using u by simp
    have st: "started allreduce ?c (invocations s0) ?s"
      using begun_started [OF inv u'] r by simp
    have tok: "thread_ok allreduce ?c (sharedT ?s) (arrived ?s) u (threads ?s ! u)"
      using st u' by (rule started_thread_ok)
    have bad: "push_tasks (sharedT ?s) = 0 \<and> reduce_tasks (sharedT ?s) = nGPUs (sharedT ?s)
        \<and> int (length (list (sharedT ?s))) \<noteq> 2 * nGPUs (sharedT ?s)"
      using tok r unfolding thread_ok_def
      by (auto simp: in_set_conv_nth split: if_splits)
    have "\<forall>t<length (threads ?s). length (contrib (?c t)) = 2"
      using wellformed_contrib [OF w] by simp
    then have "int (length (buffer_of ?c (arrived ?s))) = 2 * nGPUs (sharedT ?s)"
      using started_full_buffer [OF st] bad by blast
    moreover have "list (sharedT ?s) = buffer_of ?c (arrived ?s)"
      using st bad unfolding started_def by simp
    ultimately show False using bad by simp
  qed
qed

theorem assertion_guards_reduction_witness:
  "pc (threads (run allreduce_sum [0, 1, 2, 0, 1, 2] ex3_start) ! 0) = Pull 0
   \<and> list (sharedT (run allreduce_sum [0, 1, 2, 0, 1, 2] ex3_start)) = [5, 7, 9]
   \<and> pc (threads (step allreduce_sum 0 (run allreduce_sum [0, 1, 2, 0, 1, 2] ex3_start)) ! 0)
       = Raised AssertionError
   \<and> invocations (step allreduce_sum 0 (run allreduce_sum [0, 1, 2, 0, 1, 2] ex3_start)) = []
   \<and> pc (threads (run allreduce_sum [0, 1, 0, 1] ex_start) ! 0) = Pull 0
   \<and> pc (threads (step allreduce_sum 0 (run allreduce_sum [0, 1, 0, 1] ex_start)) ! 0)
       \<noteq> Raised AssertionError
   \<and> wellformed_round ex_start
   \<and> pc (threads (run allreduce_sum ex_sched ex_start) ! 1) \<noteq> Raised AssertionError"
proof -
  let ?m = "run allreduce_sum [0, 1, 2, 0, 1, 2] ex3_start"
  let ?w = "run allreduce_sum [0, 1, 0, 1] ex_start"
  let ?f = "run allreduce_sum ex_sched ex_start"
  note T = assertion_guards_reduction
  have m: "0 < length (threads ?m) \<and> pc (threads ?m ! 0) = Pull 0
      \<and> reduce_tasks (sharedT ?m) = nGPUs (sharedT ?m)
      \<and> int (length (list (sharedT ?m))) \<noteq> 2 * nGPUs (sharedT ?m)"
    unfolding ex3_run_6 by simp
  have 1: "pc (threads (step allreduce_sum 0 ?m) ! 0) = Raised AssertionError
      \<and> sharedT (step allreduce_sum 0 ?m) = sharedT ?m
      \<and> invocations (step allreduce_sum 0 ?m) = invocations ?m"
    using T [of 0 ?m 0 allreduce_sum, THEN conjunct1] m by blast
  have i: "invocations ?m = []" "pc (threads ?m ! 0) = Pull 0" "list (sharedT ?m) = [5, 7, 9]"
    unfolding ex3_run_6 by simp_all
  have w: "0 < length (threads ?w) \<and> pc (threads ?w ! 0) = Pull 0
      \<and> int (length (list (sharedT ?w))) = 2 * nGPUs (sharedT ?w)"
    unfolding ex_run_4 by simp
  have 2: "pc (threads (step allreduce_sum 0 ?w) ! 0) \<noteq> Raised AssertionError"
    using T [of 0 ?w 0 allreduce_sum, THEN conjunct2, THEN conjunct1] w by blast
  have l: "1 < length (threads ex_start)"
    by (simp add: ex_start_def start_def)
  have f: "todo (threads ?f ! 1) = []"
    unfolding ex_run by simp
  have 3: "pc (threads ?f ! 1) \<noteq> Raised AssertionError"
    using T [of _ _ _ allreduce_sum ex_start ex_sched, THEN conjunct2, THEN conjunct2]
      ex_wellformed l f by blast
  show ?thesis
    using 1 2 3 i w ex_wellformed by simp
qed
section \<open>The next round and the reads of the round before\<close>




section \<open>A reducer that raises\<close>





section \<open>The constructor discards its eps and momentum\<close>

text \<open>
  C9. For every \<open>num_features\<close> and every \<open>eps\<close> and \<open>momentum\<close> given to the
  constructor, the module it builds has \<open>eps = 1e-5\<close> and \<open>momentum = 0.1\<close>: the base
  constructor is called with these two literals, so the module is the same whatever
  values the caller supplied.
\<close>

theorem SyncBatchNorm_init_ignores_eps_momentum:
  "eps (base_module (SyncBatchNorm_init BatchNorm_init dc nf e m kw)) = 1 / 100000
   \<and> momentum (base_module (SyncBatchNorm_init BatchNorm_init dc nf e m kw)) = 1 / 10
   \<and> SyncBatchNorm_init base dc nf e m kw = SyncBatchNorm_init base dc nf e' m' kw
   \<and> base_module (SyncBatchNorm_init base dc nf e m kw) = base nf (1 / 100000) (1 / 10) kw"
  by (simp add: SyncBatchNorm_init_def BatchNorm_init_def)

section \<open>The arity is the constant 2\<close>

text \<open>
  C10. Whatever the callers contribute: every call of \<^verbatim>\<open>allreduce\<close> made by any
  interleaving has arity argument 2; the two reads of a call take the entries at
  \<open>2 * idx\<close> and \<open>2 * idx + 1\<close>, so that in a round the caller that arrived \<open>k\<close>-th and
  returned \<open>(x, y)\<close> was given the entries \<open>2 * k\<close> and \<open>2 * k + 1\<close> of the list; and in a
  round whose \<open>nGPUs\<close> contributions do not total \<open>2 * nGPUs\<close> values, \<^verbatim>\<open>allreduce\<close> is never
  called, no caller gets past the pull, and every caller that reaches the pull raises
  \<^verbatim>\<open>AssertionError\<close>.
\<close>

theorem arity_fixed_at_two:
  "(\<forall>e\<in>set (invocations (run allreduce sched s)). e \<in> set (invocations s) \<or> fst (snd e) = 2)
   \<and> (t < length (threads s) \<and> pc (threads s ! t) = Read i
        \<and> getitem (list (sharedT s)) (2 * i) = Inr x \<longrightarrow>
      pc (threads (step allreduce t s) ! t) = Read2 i x)
   \<and> (t < length (threads s) \<and> pc (threads s ! t) = Read2 i x
        \<and> getitem (list (sharedT s)) (2 * i + 1) = Inr y \<longrightarrow>
      pc (threads (step allreduce t s) ! t) = Returned x y)
   \<and> (quiescent s0 \<longrightarrow>
      (\<forall>k<length (arrived (run allreduce sched s0)). \<forall>x y.
         arrived (run allreduce sched s0) ! k < length (threads s0)
         \<and> pc (threads (run allreduce sched s0) ! (arrived (run allreduce sched s0) ! k))
             = Returned x y
         \<and> todo (threads (run allreduce sched s0) ! (arrived (run allreduce sched s0) ! k)) = []
         \<longrightarrow>
           getitem (list (sharedT (run allreduce sched s0))) (2 * int k) = Inr x
           \<and> getitem (list (sharedT (run allreduce sched s0))) (2 * int k + 1) = Inr y))
   \<and> (quiescent s0 \<and> int (total_contributed s0) \<noteq> 2 * nGPUs (sharedT s0) \<longrightarrow>
        invocations (run allreduce sched s0) = invocations s0
        \<and> (\<forall>u<length (threads s0). \<not> pulled (threads (run allreduce sched s0) ! u))
        \<and> (\<forall>u j. u < length (threads s0)
               \<and> pc (threads (run allreduce sched s0) ! u) = Pull j \<longrightarrow>
             pc (threads (step allreduce u (run allreduce sched s0)) ! u)
               = Raised AssertionError))"
proof (intro conjI)
  show "\<forall>e\<in>set (invocations (run allreduce sched s)).
          e \<in> set (invocations s) \<or> fst (snd e) = 2"
    using invocations_run_arity by blast
  show "t < length (threads s) \<and> pc (threads s ! t) = Read i
        \<and> getitem (list (sharedT s)) (2 * i) = Inr x \<longrightarrow>
      pc (threads (step allreduce t s) ! t) = Read2 i x"
    by (simp add: step_def)
  show "t < length (threads s) \<and> pc (threads s ! t) = Read2 i x
        \<and> getitem (list (sharedT s)) (2 * i + 1) = Inr y \<longrightarrow>
      pc (threads (step allreduce t s) ! t) = Returned x y"
    by (simp add: step_def)
  show "quiescent s0 \<longrightarrow>
      (\<forall>k<length (arrived (run allreduce sched s0)). \<forall>x y.
         arrived (run allreduce sched s0) ! k < length (threads s0)
         \<and> pc (threads (run allreduce sched s0) ! (arrived (run allreduce sched s0) ! k))
             = Returned x y
         \<and> todo (threads (run allreduce sched s0) ! (arrived (run allreduce sched s0) ! k)) = []
         \<longrightarrow>
           getitem (list (sharedT (run allreduce sched s0))) (2 * int k) = Inr x
           \<and> getitem (list (sharedT (run allreduce sched s0))) (2 * int k + 1) = Inr y)"
    using returned_pair [OF _ refl, of s0 _ allreduce sched] by simp
  show "quiescent s0 \<and> int (total_contributed s0) \<noteq> 2 * nGPUs (sharedT s0) \<longrightarrow>
        invocations (run allreduce sched s0) = invocations s0
        \<and> (\<forall>u<length (threads s0). \<not> pulled (threads (run allreduce sched s0) ! u))
        \<and> (\<forall>u j. u < length (threads s0)
               \<and> pc (threads (run allreduce sched s0) ! u) = Pull j \<longrightarrow>
             pc (threads (step allreduce u (run allreduce sched s0)) ! u)
               = Raised AssertionError)"
    using malformed_round [OF _ _ refl, of s0 allreduce sched] by blast
qed

theorem arity_fixed_at_two_witness:
  "fst (snd (hd (invocations (run allreduce_sum ex_sched ex_start)))) = 2
   \<and> invocations (run allreduce_sum ex_sched ex_start) \<noteq> []
   \<and> pc (threads (run allreduce_sum [0, 1, 0, 1, 0, 1, 0, 1] ex_start) ! 1) = Read 1
   \<and> pc (threads (step allreduce_sum 1 (run allreduce_sum [0, 1, 0, 1, 0, 1, 0, 1] ex_start)) ! 1)
       = Read2 1 30
   \<and> pc (threads (run allreduce_sum [0, 1, 0, 1, 0, 1, 0, 1, 0, 1] ex_start) ! 1) = Read2 1 30
   \<and> pc (threads (step allreduce_sum 1
         (run allreduce_sum [0, 1, 0, 1, 0, 1, 0, 1, 0, 1] ex_start)) ! 1) = Returned 30 20
   \<and> pc (threads (run allreduce_sum ex_sched ex_start) ! 1) = Returned 30 20
   \<and> getitem (list (sharedT (run allreduce_sum ex_sched ex_start))) 2 = Inr 30
   \<and> getitem (list (sharedT (run allreduce_sum ex_sched ex_start))) 3 = Inr 20
   \<and> quiescent ex3_start \<and> total_contributed ex3_start = 3 \<and> nGPUs (sharedT ex3_start) = 3
   \<and> pc (threads (step allreduce_sum 0 (run allreduce_sum [0, 1, 2, 0, 1, 2] ex3_start)) ! 0)
       = Raised AssertionError
   \<and> invocations (run allreduce_sum [0, 1, 2, 0, 1, 2] ex3_start) = []"
proof -
  let ?f = "run allreduce_sum ex_sched ex_start"
  let ?a = "run allreduce_sum [0, 1, 0, 1, 0, 1, 0, 1] ex_start"
  let ?b = "run allreduce_sum [0, 1, 0, 1, 0, 1, 0, 1, 0, 1] ex_start"
  let ?m = "run allreduce_sum [0, 1, 2, 0, 1, 2] ex3_start"
  note T = arity_fixed_at_two
  have i0: "invocations ex_start = []" "invocations ex3_start = []"
    by (simp_all add: ex_start_def ex3_start_def start_def)
  have 1: "\<forall>e\<in>set (invocations ?f). fst (snd e) = 2"
    using T [of allreduce_sum ex_sched ex_start, THEN conjunct1] unfolding i0 by simp
  have ne: "invocations ?f \<noteq> []" unfolding ex_run by simp
  have 1: "fst (snd (hd (invocations ?f))) = 2"
    using 1 ne by simp
  have ha: "1 < length (threads ?a) \<and> pc (threads ?a ! 1) = Read 1
      \<and> getitem (list (sharedT ?a)) (2 * 1) = Inr 30"
    unfolding ex_run_8 by (simp add: getitem_def)
  have 2: "pc (threads (step allreduce_sum 1 ?a) ! 1) = Read2 1 30"
    using T [of allreduce_sum _ ?a 1 1 30, THEN conjunct2, THEN conjunct1] ha by blast
  have hb: "1 < length (threads ?b) \<and> pc (threads ?b ! 1) = Read2 1 30
      \<and> getitem (list (sharedT ?b)) (2 * 1 + 1) = Inr 20"
    unfolding ex_run_10 by (simp add: getitem_def)
  have 3: "pc (threads (step allreduce_sum 1 ?b) ! 1) = Returned 30 20"
    using T [of allreduce_sum _ ?b 1 1 30 20, THEN conjunct2, THEN conjunct2, THEN conjunct1] hb
    by blast
  have hf: "1 < length (arrived ?f)" "arrived ?f ! 1 = 1" "1 < length (threads ex_start)"
    "pc (threads ?f ! 1) = Returned 30 20" "todo (threads ?f ! 1) = []"
    unfolding ex_run by (simp_all add: ex_start_def start_def)
  have "getitem (list (sharedT ?f)) (2 * int 1) = Inr 30
      \<and> getitem (list (sharedT ?f)) (2 * int 1 + 1) = Inr 20"
    using T [of allreduce_sum ex_sched _ _ _ _ _ ex_start, THEN conjunct2, THEN conjunct2,
        THEN conjunct2, THEN conjunct1, rule_format, OF ex_quiescent hf(1), of 30 20] hf
    by simp
  then have 4: "getitem (list (sharedT ?f)) 2 = Inr 30" "getitem (list (sharedT ?f)) 3 = Inr 20"
    by simp_all
  have n3: "nGPUs (sharedT ex3_start) = 3"
    by (simp add: ex3_start_def start_def SharedTensor_init_def clear_def)
  have hm: "quiescent ex3_start \<and> int (total_contributed ex3_start) \<noteq> 2 * nGPUs (sharedT ex3_start)"
    using ex3_quiescent ex3_total n3 by simp
  note M = T [of allreduce_sum "[0, 1, 2, 0, 1, 2]" _ _ _ _ _ ex3_start, THEN conjunct2,
        THEN conjunct2, THEN conjunct2, THEN conjunct2, rule_format, OF hm]
  have 5: "invocations ?m = []" using M [THEN conjunct1] unfolding i0 .
  have pm: "0 < length (threads ex3_start) \<and> pc (threads ?m ! 0) = Pull 0"
    unfolding ex3_run_6 by (simp add: ex3_start_def start_def)
  have 6: "pc (threads (step allreduce_sum 0 ?m) ! 0) = Raised AssertionError"
    using M [THEN conjunct2, THEN conjunct2, rule_format, OF pm] .
  have ra: "pc (threads ?a ! 1) = Read 1" unfolding ex_run_8 by simp
  have rb: "pc (threads ?b ! 1) = Read2 1 30" unfolding ex_run_10 by simp
  show ?thesis
    using 1 ne ra 2 rb 3 hf(4) 4 ex3_quiescent ex3_total n3 6 5 by blast
qed

end
